theory Spec2Isabelle
  imports Main
begin

section \<open>Data and platform functions\<close>

text \<open>
  A JavaScript string and a Buffer are both modelled as a list of 8-bit characters; an
  instant is a valid time value, the number of milliseconds since the epoch.
\<close>

type_synonym bytes = string
type_synonym instant = int

text \<open>
  \<open>SignedLinkPayload\<close> of \<open>src/lib/sign.ts\<close>. The action is one of the strings
  \<open>cancel\<close>, \<open>reschedule\<close>, \<open>manage\<close>; an optional field that is absent is \<open>None\<close>.
  A payload read back from a token is used at this type without a check; a required
  field that is missing there is represented by the empty string, which the source
  cannot tell apart (it tests the fields by truthiness).
\<close>

record SignedLinkPayload =
  action :: string
  meetingTypeId :: string
  eventId :: string
  guestEmail :: string
  expiresAt :: string
  calendarId :: "string option"
  guestName :: "string option"
  slotStart :: "string option"
  slotEnd :: "string option"

text \<open>
  A value that is thrown: an instance of \<open>Error\<close> with its message, a
  \<open>GoogleApiError\<close> with its message and HTTP status, or a value that is not an
  \<open>Error\<close> at all.
\<close>

datatype thrown = Error string | GoogleApiError string int | NotAnError

text \<open>
  The scheduling code calls into its JavaScript runtime for dates, codecs and
  cryptography. Those functions are not part of the repository; they are parameters of
  the model, collected in one record.
\<close>

record platform =
  Date_parse :: "string \<Rightarrow> instant option"
    \<comment> \<open>\<open>Date.parse(s)\<close> and \<open>new Date(s).getTime()\<close>; \<open>None\<close> stands for \<open>NaN\<close>\<close>
  Date_toISOString :: "instant \<Rightarrow> string"
    \<comment> \<open>\<open>new Date(ms).toISOString()\<close>\<close>
  Hmac_sha256 :: "string \<Rightarrow> string \<Rightarrow> bytes"
    \<comment> \<open>\<open>createHmac("sha256", secret).update(data).digest()\<close>\<close>
  Buffer_toBase64url :: "bytes \<Rightarrow> string"
    \<comment> \<open>\<open>buffer.toString("base64url")\<close>\<close>
  Buffer_fromBase64url :: "string \<Rightarrow> bytes"
    \<comment> \<open>\<open>Buffer.from(value, "base64url")\<close>\<close>
  Buffer_fromUtf8 :: "string \<Rightarrow> bytes"
    \<comment> \<open>\<open>Buffer.from(text, "utf8")\<close>\<close>
  Buffer_toUtf8 :: "bytes \<Rightarrow> string"
    \<comment> \<open>\<open>buffer.toString("utf8")\<close>\<close>
  JSON_stringify :: "SignedLinkPayload \<Rightarrow> string"
    \<comment> \<open>\<open>JSON.stringify(payload)\<close>\<close>
  JSON_parse :: "string \<Rightarrow> SignedLinkPayload option"
    \<comment> \<open>\<open>JSON.parse(text)\<close>; \<open>None\<close> stands for the \<open>SyntaxError\<close> and for \<open>null\<close>\<close>

section \<open>Alias store (\<open>src/lib/manage-link-alias.ts\<close>)\<close>

record ManageLinkAliasRecord =
  alias_token :: string
  alias_expiresAt :: string
  alias_createdAt :: instant

text \<open>
  The store is a JavaScript object keyed by alias. It is modelled by the list of its
  entries in enumeration order (the order of \<open>Object.entries\<close>); the keys of an object
  are distinct.
\<close>

type_synonym StoredAliasRecords = "(string \<times> ManageLinkAliasRecord) list"

definition ALIAS_BYTE_LENGTH :: nat where
  "ALIAS_BYTE_LENGTH = 6"

definition MAX_GENERATION_ATTEMPTS :: nat where
  "MAX_GENERATION_ATTEMPTS = 5"

definition isExpired :: "platform \<Rightarrow> string \<Rightarrow> instant \<Rightarrow> bool" where
  "isExpired P expires now =
     (case Date_parse P expires of
        None \<Rightarrow> False
      | Some timestamp \<Rightarrow> timestamp \<le> now)"

text \<open>
  \<open>records[key]\<close>. The store object is built by an object literal, so a key that is
  not its own is looked up in \<open>Object.prototype\<close>. What is found there is a function
  (for \<open>__proto__\<close> the prototype object): a truthy value with no \<open>expiresAt\<close>, for
  which \<open>isExpired\<close> answers false, as \<open>Date.parse(undefined)\<close> is \<open>NaN\<close>.
\<close>

definition Object_prototype_keys :: "string list" where
  "Object_prototype_keys =
     [''constructor'', ''__defineGetter__'', ''__defineSetter__'', ''hasOwnProperty'',
      ''__lookupGetter__'', ''__lookupSetter__'', ''isPrototypeOf'', ''propertyIsEnumerable'',
      ''toString'', ''valueOf'', ''__proto__'', ''toLocaleString'']"

datatype property_value = Own ManageLinkAliasRecord | Inherited string

definition get_property :: "StoredAliasRecords \<Rightarrow> string \<Rightarrow> property_value option" where
  "get_property records key =
     (case map_of records key of
        Some record \<Rightarrow> Some (Own record)
      | None \<Rightarrow> if key \<in> set Object_prototype_keys then Some (Inherited key) else None)"

text \<open>\<open>delete records[alias]\<close>\<close>

definition delete_key :: "string \<Rightarrow> StoredAliasRecords \<Rightarrow> StoredAliasRecords" where
  "delete_key alias records = filter (\<lambda>entry. fst entry \<noteq> alias) records"

text \<open>
  \<open>records[alias] = record\<close> for an alias that is not yet a key. JavaScript enumerates
  the keys that are canonical array indices first, in ascending numeric order, and
  every other key after them in insertion order.
\<close>

definition digit_value :: "char \<Rightarrow> nat option" where
  "digit_value c =
     (let n = (of_char c :: nat) in if 48 \<le> n \<and> n \<le> 57 then Some (n - 48) else None)"

fun decimal_value :: "nat \<Rightarrow> string \<Rightarrow> nat option" where
  "decimal_value acc [] = Some acc"
| "decimal_value acc (c # cs) =
     (case digit_value c of
        None \<Rightarrow> None
      | Some d \<Rightarrow> decimal_value (10 * acc + d) cs)"

definition array_index :: "string \<Rightarrow> nat option" where
  "array_index key =
     (if key = [] then None
      else if hd key = CHR ''0'' \<and> key \<noteq> ''0'' then None
      else (case decimal_value 0 key of
              None \<Rightarrow> None
            | Some n \<Rightarrow> if n < 4294967295 then Some n else None))"

fun insert_index ::
  "nat \<Rightarrow> string \<Rightarrow> ManageLinkAliasRecord \<Rightarrow> StoredAliasRecords \<Rightarrow> StoredAliasRecords" where
  "insert_index n alias record [] = [(alias, record)]"
| "insert_index n alias record (entry # rest) =
     (case array_index (fst entry) of
        None \<Rightarrow> (alias, record) # entry # rest
      | Some m \<Rightarrow>
          if m < n then entry # insert_index n alias record rest
          else (alias, record) # entry # rest)"

definition insert_key ::
  "string \<Rightarrow> ManageLinkAliasRecord \<Rightarrow> StoredAliasRecords \<Rightarrow> StoredAliasRecords" where
  "insert_key alias record records =
     (case array_index alias of
        None \<Rightarrow> records @ [(alias, record)]
      | Some n \<Rightarrow> insert_index n alias record records)"

text \<open>
  The first loop of \<open>registerManageLinkAlias\<close>: it walks the entries that the store
  had when the loop started, deletes every expired one it meets, and stops at the first
  live record that holds the token. The state is the mutated \<open>records\<close> object and the
  \<open>storeChanged\<close> flag; the result adds \<open>existingAlias\<close>.
\<close>

fun scan_existing ::
  "platform \<Rightarrow> instant \<Rightarrow> string \<Rightarrow> StoredAliasRecords \<Rightarrow>
   StoredAliasRecords \<times> bool \<Rightarrow> StoredAliasRecords \<times> bool \<times> string option" where
  "scan_existing P now tok [] (records, storeChanged) = (records, storeChanged, None)"
| "scan_existing P now tok (entry # rest) (records, storeChanged) =
     (if isExpired P (alias_expiresAt (snd entry)) now
      then scan_existing P now tok rest (delete_key (fst entry) records, True)
      else if alias_token (snd entry) = tok
      then (records, storeChanged, Some (fst entry))
      else scan_existing P now tok rest (records, storeChanged))"

text \<open>
  \<open>generateAlias\<close> encodes the bytes of one \<open>randomBytes(ALIAS_BYTE_LENGTH)\<close> draw.
\<close>

definition generateAlias :: "platform \<Rightarrow> bytes \<Rightarrow> string" where
  "generateAlias P drawn = Buffer_toBase64url P drawn"

text \<open>
  The second loop: at most \<open>MAX_GENERATION_ATTEMPTS\<close> candidates; \<open>random attempt\<close>
  is what \<open>randomBytes\<close> returns at that attempt. A candidate that names a property
  of \<open>Object.prototype\<close> (\<open>toString\<close> has the eight characters of an alias) is
  passed over like a live alias.
\<close>

fun generate_loop ::
  "platform \<Rightarrow> instant \<Rightarrow> (nat \<Rightarrow> bytes) \<Rightarrow> string \<Rightarrow> string \<Rightarrow> nat \<Rightarrow> nat \<Rightarrow>
   StoredAliasRecords \<times> bool \<Rightarrow> StoredAliasRecords \<times> bool \<times> string option" where
  "generate_loop P now random tok expires 0 attempt (records, storeChanged) =
     (records, storeChanged, None)"
| "generate_loop P now random tok expires (Suc remaining) attempt (records, storeChanged) =
     (let aliasCandidate = generateAlias P (random attempt) in
      case get_property records aliasCandidate of
        Some (Own record) \<Rightarrow>
          if isExpired P (alias_expiresAt record) now
          then generate_loop P now random tok expires remaining (attempt + 1)
                 (delete_key aliasCandidate records, True)
          else generate_loop P now random tok expires remaining (attempt + 1)
                 (records, storeChanged)
      | Some (Inherited name) \<Rightarrow>
          generate_loop P now random tok expires remaining (attempt + 1) (records, storeChanged)
      | None \<Rightarrow>
          (insert_key aliasCandidate
             \<lparr>alias_token = tok, alias_expiresAt = expires, alias_createdAt = now\<rparr> records,
           True, Some aliasCandidate))"

text \<open>
  Each operation takes the clock reading of its one \<open>Date.now()\<close> call and the store it
  reads, and returns its result with the store it leaves behind. The store is written
  back only when \<open>storeChanged\<close> is set.
\<close>

definition registerManageLinkAlias ::
  "platform \<Rightarrow> instant \<Rightarrow> (nat \<Rightarrow> bytes) \<Rightarrow> string \<Rightarrow> string \<Rightarrow> StoredAliasRecords \<Rightarrow>
   string option \<times> StoredAliasRecords" where
  "registerManageLinkAlias P now random tok expires store =
     (if tok = [] then (None, store)
      else
        (case scan_existing P now tok store (store, False) of
           (records, storeChanged, existingAlias) \<Rightarrow>
             if existingAlias \<noteq> None \<and> existingAlias \<noteq> Some []
             then (existingAlias, if storeChanged then records else store)
             else
               (case generate_loop P now random tok expires MAX_GENERATION_ATTEMPTS 0
                       (records, storeChanged) of
                  (records', storeChanged', generatedAlias) \<Rightarrow>
                    (generatedAlias, if storeChanged' then records' else store))))"

text \<open>
  \<open>resolveManageLinkAlias\<close> returns what \<open>records[alias]\<close> gave it: for an alias
  that names a property of \<open>Object.prototype\<close> and no record of the store, that is
  the inherited value.
\<close>

definition resolveManageLinkAlias ::
  "platform \<Rightarrow> instant \<Rightarrow> string \<Rightarrow> StoredAliasRecords \<Rightarrow>
   property_value option \<times> StoredAliasRecords" where
  "resolveManageLinkAlias P now alias store =
     (if alias = [] then (None, store)
      else
        (case get_property store alias of
           None \<Rightarrow> (None, store)
         | Some (Inherited name) \<Rightarrow> (Some (Inherited name), store)
         | Some (Own record) \<Rightarrow>
             if isExpired P (alias_expiresAt record) now
             then (None, delete_key alias store)
             else (Some (Own record), store)))"

fun purge_loop ::
  "platform \<Rightarrow> instant \<Rightarrow> StoredAliasRecords \<Rightarrow>
   StoredAliasRecords \<times> nat \<times> bool \<Rightarrow> StoredAliasRecords \<times> nat \<times> bool" where
  "purge_loop P now [] state = state"
| "purge_loop P now (entry # rest) (records, purged, storeChanged) =
     (if isExpired P (alias_expiresAt (snd entry)) now
      then purge_loop P now rest (delete_key (fst entry) records, purged + 1, True)
      else purge_loop P now rest (records, purged, storeChanged))"

definition purgeExpiredManageAliases ::
  "platform \<Rightarrow> instant \<Rightarrow> StoredAliasRecords \<Rightarrow> nat \<times> StoredAliasRecords" where
  "purgeExpiredManageAliases P now store =
     (case purge_loop P now store (store, 0, False) of
        (records, purged, storeChanged) \<Rightarrow>
          (purged, if storeChanged then records else store))"

text \<open>
  A call on the alias store with what it reads from outside: the clock, and for a
  registration the random bytes of each attempt. \<open>run_calls\<close> makes the calls in
  order, each on the store that the one before left behind.
\<close>

datatype alias_call =
    Register instant "nat \<Rightarrow> bytes" string string
  | Resolve instant string
  | Purge instant

fun apply_call :: "platform \<Rightarrow> alias_call \<Rightarrow> StoredAliasRecords \<Rightarrow> StoredAliasRecords" where
  "apply_call P (Register now random tok expires) store =
     snd (registerManageLinkAlias P now random tok expires store)"
| "apply_call P (Resolve now alias) store = snd (resolveManageLinkAlias P now alias store)"
| "apply_call P (Purge now) store = snd (purgeExpiredManageAliases P now store)"

fun run_calls :: "platform \<Rightarrow> alias_call list \<Rightarrow> StoredAliasRecords \<Rightarrow> StoredAliasRecords" where
  "run_calls P [] store = store"
| "run_calls P (c # calls) store = run_calls P calls (apply_call P c store)"

text \<open>
  An entry is expired at an instant; a store holds a record under an alias, with the keys
  of the store distinct.
\<close>

abbreviation entry_expired :: "platform \<Rightarrow> instant \<Rightarrow> string \<times> ManageLinkAliasRecord \<Rightarrow> bool" where
  "entry_expired P now entry \<equiv> isExpired P (alias_expiresAt (snd entry)) now"

definition holds_record ::
  "string \<Rightarrow> ManageLinkAliasRecord \<Rightarrow> StoredAliasRecords \<Rightarrow> bool" where
  "holds_record alias record records \<longleftrightarrow>
     distinct (map fst records) \<and> map_of records alias = Some record"

section \<open>Link signer (\<open>src/lib/sign.ts\<close>)\<close>

definition DEFAULT_MANAGEMENT_LINK_TTL_MS :: int where
  "DEFAULT_MANAGEMENT_LINK_TTL_MS = 1000 * 60 * 60 * 24 * 7"

text \<open>\<open>LinkPayloadInput\<close>: the payload without \<open>action\<close> and \<open>expiresAt\<close>.\<close>

record LinkPayloadInput =
  input_meetingTypeId :: string
  input_eventId :: string
  input_guestEmail :: string
  input_calendarId :: "string option"
  input_guestName :: "string option"
  input_slotStart :: "string option"
  input_slotEnd :: "string option"

record SignedLinkToken =
  link_token :: string
  link_expiresAt :: string

record ManagementLinks =
  cancel :: SignedLinkToken
  reschedule :: SignedLinkToken
  manage :: SignedLinkToken

text \<open>
  \<open>process.env.SIGNING_SECRET\<close> is \<open>None\<close> when the variable is not set; the empty
  string is rejected as well.
\<close>

definition getSigningSecret :: "string option \<Rightarrow> thrown + string" where
  "getSigningSecret env_secret =
     (case env_secret of
        None \<Rightarrow> Inl (Error ''Missing SIGNING_SECRET environment variable for link signing.'')
      | Some secret \<Rightarrow>
          if secret = []
          then Inl (Error ''Missing SIGNING_SECRET environment variable for link signing.'')
          else Inr secret)"

definition base64UrlEncode :: "platform \<Rightarrow> bytes \<Rightarrow> string" where
  "base64UrlEncode P buffer = Buffer_toBase64url P buffer"

definition base64UrlDecode :: "platform \<Rightarrow> string \<Rightarrow> bytes" where
  "base64UrlDecode P v = Buffer_fromBase64url P v"

definition signLinkPayload :: "platform \<Rightarrow> string option \<Rightarrow> SignedLinkPayload \<Rightarrow> thrown + string" where
  "signLinkPayload P env_secret payload =
     (case getSigningSecret env_secret of
        Inl e \<Rightarrow> Inl e
      | Inr secret \<Rightarrow>
          (let payloadJson = JSON_stringify P payload;
               payloadEncoded = base64UrlEncode P (Buffer_fromUtf8 P payloadJson);
               signature = Hmac_sha256 P secret payloadEncoded;
               signatureEncoded = base64UrlEncode P signature
           in Inr (payloadEncoded @ ''.'' @ signatureEncoded)))"

text \<open>
  \<open>token.split(".")\<close>, and the element of an array at an index (\<open>None\<close> is
  \<open>undefined\<close>).
\<close>

fun split_on :: "char \<Rightarrow> string \<Rightarrow> string list" where
  "split_on sep [] = [[]]"
| "split_on sep (c # cs) =
     (if c = sep then [] # split_on sep cs
      else (case split_on sep cs of
              [] \<Rightarrow> [[c]]
            | part # parts \<Rightarrow> (c # part) # parts))"

fun element :: "'a list \<Rightarrow> nat \<Rightarrow> 'a option" where
  "element [] i = None"
| "element (x # xs) 0 = Some x"
| "element (x # xs) (Suc i) = element xs i"

definition decodeSignedLinkPayload :: "platform \<Rightarrow> string \<Rightarrow> SignedLinkPayload option" where
  "decodeSignedLinkPayload P tok =
     (if tok = [] then None
      else
        (case element (split_on CHR ''.'' tok) 0 of
           None \<Rightarrow> None
         | Some payloadEncoded \<Rightarrow>
             if payloadEncoded = [] then None
             else
               (let payloadJson = Buffer_toUtf8 P (base64UrlDecode P payloadEncoded)
                in JSON_parse P payloadJson)))"

text \<open>\<open>timingSafeEqual\<close> on two buffers of one length.\<close>

definition timingSafeEqual :: "bytes \<Rightarrow> bytes \<Rightarrow> bool" where
  "timingSafeEqual a b \<longleftrightarrow> a = b"

text \<open>
  \<open>verifySignedLink\<close> reads the clock once (\<open>now\<close>). Its result is \<open>Inl\<close> when
  \<open>getSigningSecret\<close> throws, \<open>Inr None\<close> for \<open>null\<close>.
\<close>

definition verifySignedLink ::
  "platform \<Rightarrow> string option \<Rightarrow> instant \<Rightarrow> string \<Rightarrow> thrown + SignedLinkPayload option" where
  "verifySignedLink P env_secret now tok =
     (if tok = [] then Inr None
      else
        (case (element (split_on CHR ''.'' tok) 0, element (split_on CHR ''.'' tok) 1) of
           (Some payloadEncoded, Some signatureEncoded) \<Rightarrow>
             if payloadEncoded = [] \<or> signatureEncoded = [] then Inr None
             else
               (case getSigningSecret env_secret of
                  Inl e \<Rightarrow> Inl e
                | Inr secret \<Rightarrow>
                    (let expectedSignature = Hmac_sha256 P secret payloadEncoded;
                         providedSignature = base64UrlDecode P signatureEncoded
                     in if length expectedSignature \<noteq> length providedSignature then Inr None
                        else if \<not> timingSafeEqual expectedSignature providedSignature
                        then Inr None
                        else
                          (case decodeSignedLinkPayload P tok of
                             None \<Rightarrow> Inr None
                           | Some payload \<Rightarrow>
                               (case Date_parse P (expiresAt payload) of
                                  None \<Rightarrow> Inr None
                                | Some expires \<Rightarrow>
                                    if expires < now then Inr None
                                    else if action payload = [] \<or> meetingTypeId payload = []
                                            \<or> eventId payload = [] \<or> guestEmail payload = []
                                    then Inr None
                                    else Inr (Some payload)))))
         | _ \<Rightarrow> Inr None))"

text \<open>
  What the link signer relies on in its platform: decoding base64url undoes encoding,
  the encoded text has no dot and is empty only for an empty buffer, \<open>JSON.parse\<close>
  gives back the payload that \<open>JSON.stringify\<close> wrote (through the conversion to UTF-8
  and back), the JSON text is not empty, and neither is an HMAC digest.
\<close>

definition lossless_codecs :: "platform \<Rightarrow> bool" where
  "lossless_codecs P \<longleftrightarrow>
     (\<forall>buffer. Buffer_fromBase64url P (Buffer_toBase64url P buffer) = buffer)
     \<and> (\<forall>buffer. CHR ''.'' \<notin> set (Buffer_toBase64url P buffer))
     \<and> (\<forall>buffer. buffer \<noteq> [] \<longrightarrow> Buffer_toBase64url P buffer \<noteq> [])
     \<and> (\<forall>payload. JSON_parse P (Buffer_toUtf8 P (Buffer_fromUtf8 P (JSON_stringify P payload)))
                      = Some payload)
     \<and> (\<forall>payload. Buffer_fromUtf8 P (JSON_stringify P payload) \<noteq> [])
     \<and> (\<forall>secret data. Hmac_sha256 P secret data \<noteq> [])"

text \<open>The object literal \<open>{ action, expiresAt, ...payload }\<close>.\<close>

definition make_payload :: "string \<Rightarrow> string \<Rightarrow> LinkPayloadInput \<Rightarrow> SignedLinkPayload" where
  "make_payload act expires payload =
     \<lparr>action = act,
      meetingTypeId = input_meetingTypeId payload,
      eventId = input_eventId payload,
      guestEmail = input_guestEmail payload,
      expiresAt = expires,
      calendarId = input_calendarId payload,
      guestName = input_guestName payload,
      slotStart = input_slotStart payload,
      slotEnd = input_slotEnd payload\<rparr>"

text \<open>\<open>generateSignedLink\<close> reads the clock once (\<open>now\<close>).\<close>

definition generateSignedLink ::
  "platform \<Rightarrow> string option \<Rightarrow> instant \<Rightarrow> string \<Rightarrow> LinkPayloadInput \<Rightarrow> int \<Rightarrow>
   thrown + SignedLinkToken" where
  "generateSignedLink P env_secret now act payload ttlMs =
     (let expires = Date_toISOString P (now + ttlMs) in
      case signLinkPayload P env_secret (make_payload act expires payload) of
        Inl e \<Rightarrow> Inl e
      | Inr tok \<Rightarrow> Inr \<lparr>link_token = tok, link_expiresAt = expires\<rparr>)"

text \<open>
  \<open>createManagementLinks\<close> calls \<open>generateSignedLink\<close> three times, in the order
  cancel, reschedule, manage; each call reads the clock for itself. The three readings
  are \<open>now_cancel\<close>, \<open>now_reschedule\<close> and \<open>now_manage\<close>.
\<close>

definition createManagementLinks ::
  "platform \<Rightarrow> string option \<Rightarrow> instant \<Rightarrow> instant \<Rightarrow> instant \<Rightarrow> LinkPayloadInput \<Rightarrow> int \<Rightarrow>
   thrown + ManagementLinks" where
  "createManagementLinks P env_secret now_cancel now_reschedule now_manage payload ttlMs =
     (case generateSignedLink P env_secret now_cancel ''cancel'' payload ttlMs of
        Inl e \<Rightarrow> Inl e
      | Inr c \<Rightarrow>
          (case generateSignedLink P env_secret now_reschedule ''reschedule'' payload ttlMs of
             Inl e \<Rightarrow> Inl e
           | Inr r \<Rightarrow>
               (case generateSignedLink P env_secret now_manage ''manage'' payload ttlMs of
                  Inl e \<Rightarrow> Inl e
                | Inr m \<Rightarrow> Inr \<lparr>cancel = c, reschedule = r, manage = m\<rparr>)))"

section \<open>Slot engine and availability resolver (\<open>src/lib/slots.ts\<close>)\<close>

record MeetingType =
  mt_id :: string
  mt_title :: string
  mt_description :: "string option"
  durationMinutes :: int
  isActive :: bool

record AvailabilityRule =
  weekday :: string
  rule_start :: string
  rule_end :: string

record UtcSlot =
  slot_start :: string
  slot_end :: string

type_synonym AvailabilityByDate = "string \<rightharpoonup> UtcSlot list"


record BusyInterval =
  busy_start :: instant
  busy_end :: instant

text \<open>
  The JSON files \<open>@/config/app.settings.json\<close>, \<open>availability.rules.json\<close> and
  \<open>meeting_types.json\<close> are parameters of the model.
\<close>

record config =
  meetingTypes :: "MeetingType list"
  availabilityRules :: "AvailabilityRule list"
  maxDaysOut :: int
  minNoticeMinutes :: int

text \<open>
  The functions of \<open>date-fns\<close> and \<open>date-fns-tz\<close> that the slot engine calls, with the
  host time zone fixed. \<open>toZonedTime\<close> gives the date whose local fields show the wall
  clock of the host time zone; \<open>getHours\<close>, \<open>getDay\<close>, \<open>format_date\<close> (the pattern
  \<open>yyyy-MM-dd\<close>) and \<open>addDays\<close> work on local fields; \<open>fromZonedTime\<close> reads a wall
  clock of the host time zone.
\<close>

record datelib =
  toZonedTime :: "instant \<Rightarrow> instant"
  fromZonedTime :: "string \<Rightarrow> instant"
  format_date :: "instant \<Rightarrow> string"
  getHours :: "instant \<Rightarrow> int"
  getDay :: "instant \<Rightarrow> nat"
  addDays :: "instant \<Rightarrow> int \<Rightarrow> instant"

definition addMinutes :: "instant \<Rightarrow> int \<Rightarrow> instant" where
  "addMinutes date amount = date + amount * 60000"

definition WEEKDAY_INDEX :: "string \<rightharpoonup> nat" where
  "WEEKDAY_INDEX =
     map_of [(''sunday'', 0), (''monday'', 1), (''tuesday'', 2), (''wednesday'', 3),
             (''thursday'', 4), (''friday'', 5), (''saturday'', 6)]"



definition slotOverlapsBusy :: "instant \<Rightarrow> instant \<Rightarrow> BusyInterval list \<Rightarrow> bool" where
  "slotOverlapsBusy startUtc endUtc busyIntervals \<longleftrightarrow>
     list_ex (\<lambda>interval. startUtc < busy_end interval \<and> endUtc > busy_start interval)
       busyIntervals"

definition getRuleForDate :: "datelib \<Rightarrow> config \<Rightarrow> string \<Rightarrow> AvailabilityRule option" where
  "getRuleForDate D cfg dateLabel =
     (let midnightUtc = fromZonedTime D (dateLabel @ ''T00:00:00'');
          hostDate = toZonedTime D midnightUtc;
          weekdayIndex = getDay D hostDate
      in find (\<lambda>rule. WEEKDAY_INDEX (weekday rule) = Some weekdayIndex)
           (availabilityRules cfg))"

text \<open>
  The \<open>while\<close> loop of \<open>buildSlotsForDate\<close>, with the cursor and the slots pushed so
  far. Nothing in the loop bounds the number of rounds (a duration that is not positive
  never moves the cursor forward), so the loop is a partial function: \<open>None\<close> means
  that it does not return.
\<close>

partial_function (option) slot_loop ::
  "datelib \<Rightarrow> platform \<Rightarrow> int \<Rightarrow> instant \<Rightarrow> instant \<Rightarrow> BusyInterval list \<Rightarrow>
   instant \<Rightarrow> UtcSlot list \<Rightarrow> UtcSlot list option" where
  "slot_loop D P duration endUtc minStartUtc busyIntervals cursor slots =
     (if cursor < endUtc
      then
        (if addMinutes cursor duration > endUtc then Some slots
         else slot_loop D P duration endUtc minStartUtc busyIntervals
                (addMinutes cursor duration)
                (if cursor \<ge> minStartUtc
                 then
                   (if getHours D (toZonedTime D cursor) \<noteq> 12
                       \<and> \<not> slotOverlapsBusy cursor (addMinutes cursor duration) busyIntervals
                    then slots @ [\<lparr>slot_start = Date_toISOString P cursor,
                                   slot_end = Date_toISOString P (addMinutes cursor duration)\<rparr>]
                    else slots)
                 else slots))
      else Some slots)"

declare slot_loop.simps [code]

definition buildSlotsForDate ::
  "datelib \<Rightarrow> platform \<Rightarrow> config \<Rightarrow> MeetingType \<Rightarrow> string \<Rightarrow> instant \<Rightarrow> BusyInterval list \<Rightarrow>
   UtcSlot list option" where
  "buildSlotsForDate D P cfg meetingType dateLabel nowUtc busyIntervals =
     (case getRuleForDate D cfg dateLabel of
        None \<Rightarrow> Some []
      | Some rule \<Rightarrow>
          (let startUtc = fromZonedTime D (dateLabel @ ''T'' @ rule_start rule @ '':00'');
               endUtc = fromZonedTime D (dateLabel @ ''T'' @ rule_end rule @ '':00'');
               minStartUtc = addMinutes nowUtc (minNoticeMinutes cfg)
           in slot_loop D P (durationMinutes meetingType) endUtc minStartUtc busyIntervals
                startUtc []))"

text \<open>
  What the loop pushes: a slot that renders a cursor and the cursor moved on by the
  duration, where the cursor passed the lead-time, lunch-hour, day-end and busy tests.
\<close>

definition emitted ::
  "datelib \<Rightarrow> platform \<Rightarrow> int \<Rightarrow> instant \<Rightarrow> instant \<Rightarrow> BusyInterval list \<Rightarrow> UtcSlot \<Rightarrow> bool" where
  "emitted D P duration endUtc minStartUtc busyIntervals slot \<longleftrightarrow>
     (\<exists>cursor. slot_start slot = Date_toISOString P cursor
        \<and> slot_end slot = Date_toISOString P (addMinutes cursor duration)
        \<and> minStartUtc \<le> cursor
        \<and> getHours D (toZonedTime D cursor) \<noteq> 12
        \<and> addMinutes cursor duration \<le> endUtc
        \<and> \<not> slotOverlapsBusy cursor (addMinutes cursor duration) busyIntervals)"

text \<open>The \<open>for\<close> loop of \<open>buildAvailabilityCalendar\<close> over the day offsets.\<close>

fun calendar_loop ::
  "datelib \<Rightarrow> platform \<Rightarrow> config \<Rightarrow> MeetingType \<Rightarrow> instant \<Rightarrow> instant \<Rightarrow> BusyInterval list \<Rightarrow>
   int list \<Rightarrow> AvailabilityByDate \<Rightarrow> AvailabilityByDate option" where
  "calendar_loop D P cfg meetingType startDateUtc nowUtc busyIntervals [] availability =
     Some availability"
| "calendar_loop D P cfg meetingType startDateUtc nowUtc busyIntervals (offset # offsets)
     availability =
     (let dayStartUtc = addDays D startDateUtc offset;
          dayInHostTz = toZonedTime D dayStartUtc;
          dateLabel = format_date D dayInHostTz;
          nextDayStartUtc = addDays D dayStartUtc 1;
          busyForDay = filter (\<lambda>interval. busy_start interval < nextDayStartUtc
                                         \<and> busy_end interval > dayStartUtc) busyIntervals
      in case buildSlotsForDate D P cfg meetingType dateLabel nowUtc busyForDay of
           None \<Rightarrow> None
         | Some slots \<Rightarrow>
             calendar_loop D P cfg meetingType startDateUtc nowUtc busyIntervals offsets
               (availability(dateLabel \<mapsto> slots)))"

definition buildAvailabilityCalendar ::
  "datelib \<Rightarrow> platform \<Rightarrow> config \<Rightarrow> MeetingType \<Rightarrow> instant \<Rightarrow> instant \<Rightarrow> BusyInterval list \<Rightarrow>
   AvailabilityByDate option" where
  "buildAvailabilityCalendar D P cfg meetingType startDateUtc nowUtc busyIntervals =
     calendar_loop D P cfg meetingType startDateUtc nowUtc busyIntervals
       [0..maxDaysOut cfg] Map.empty"

text \<open>Every slot of an availability map renders a cursor that passed the lead-time and lunch-hour tests.\<close>

definition slots_allowed :: "datelib \<Rightarrow> platform \<Rightarrow> config \<Rightarrow> instant \<Rightarrow> AvailabilityByDate \<Rightarrow> bool" where
  "slots_allowed D P cfg nowUtc availability \<longleftrightarrow>
     (\<forall>dateLabel slots slot. availability dateLabel = Some slots \<longrightarrow> slot \<in> set slots \<longrightarrow>
        (\<exists>cursor. slot_start slot = Date_toISOString P cursor
           \<and> getHours D (toZonedTime D cursor) \<noteq> 12
           \<and> addMinutes nowUtc (minNoticeMinutes cfg) \<le> cursor))"

text \<open>
  \<open>mergeBusyIntervals\<close>: the sort is stable and by start; the loop keeps the list
  \<open>merged\<close> and rewrites the end of its last element in place.
\<close>

fun merge_loop :: "BusyInterval list \<Rightarrow> BusyInterval list \<Rightarrow> BusyInterval list" where
  "merge_loop [] merged = merged"
| "merge_loop (current # rest) merged =
     (let previous = last merged in
      if busy_start current \<le> busy_end previous
      then
        (if busy_end current > busy_end previous
         then merge_loop rest (butlast merged @ [previous\<lparr>busy_end := busy_end current\<rparr>])
         else merge_loop rest merged)
      else merge_loop rest (merged @ [current]))"

definition mergeBusyIntervals :: "BusyInterval list \<Rightarrow> BusyInterval list" where
  "mergeBusyIntervals intervals =
     (if intervals = [] then []
      else
        (let sorted = sort_key busy_start intervals
         in merge_loop (tl sorted) [hd sorted]))"

text \<open>
  The instants that a list of busy intervals covers; an interval covers the instants from
  its start up to, not including, its end, as in \<open>slotOverlapsBusy\<close>.
\<close>

definition covered :: "BusyInterval list \<Rightarrow> instant set" where
  "covered intervals = (\<Union>b\<in>set intervals. {busy_start b..<busy_end b})"

text \<open>
  \<open>GoogleFreeBusyResult\<close>: for each calendar, in the order of \<open>Object.values\<close>, its
  busy ranges with start and end as strings.
\<close>

type_synonym GoogleFreeBusyResult = "(string \<times> (string \<times> string) list) list"

definition collectBusyIntervals :: "platform \<Rightarrow> GoogleFreeBusyResult \<Rightarrow> BusyInterval list" where
  "collectBusyIntervals P freeBusy =
     mergeBusyIntervals
       (concat (map (\<lambda>calendarBusy.
          List.map_filter (\<lambda>range.
            case (Date_parse P (fst range), Date_parse P (snd range)) of
              (Some s, Some e) \<Rightarrow>
                if e \<le> s then None else Some \<lparr>busy_start = s, busy_end = e\<rparr>
            | _ \<Rightarrow> None) calendarBusy) (map snd freeBusy)))"







section \<open>Reschedule commit (\<open>PATCH\<close> of \<open>src/app/api/reschedule/route.ts\<close>)\<close>














section \<open>A reference platform\<close>

text \<open>
  One concrete platform, for running the model on concrete inputs: ISO-8601 dates in
  UTC, the base64url alphabet of RFC 4648 without padding, strings that are their own
  UTF-8 bytes, JSON objects with string members, and a keyed checksum of 32 bytes in the
  place of HMAC-SHA256. The theorems below are proved for every platform; this one
  shows that what they assume of a platform can be met.
\<close>

subsection \<open>Dates\<close>

definition days_from_civil :: "int \<Rightarrow> int \<Rightarrow> int \<Rightarrow> int" where
  "days_from_civil y m d =
     (let y' = (if m \<le> 2 then y - 1 else y);
          era = y' div 400;
          yoe = y' - era * 400;
          mp = (m + 9) mod 12;
          doy = (153 * mp + 2) div 5 + d - 1;
          doe = yoe * 365 + yoe div 4 - yoe div 100 + doy
      in era * 146097 + doe - 719468)"

definition civil_from_days :: "int \<Rightarrow> int \<times> int \<times> int" where
  "civil_from_days z0 =
     (let z = z0 + 719468;
          era = z div 146097;
          doe = z - era * 146097;
          yoe = (doe - doe div 1460 + doe div 36524 - doe div 146096) div 365;
          doy = doe - (365 * yoe + yoe div 4 - yoe div 100);
          mp = (5 * doy + 2) div 153;
          d = doy - (153 * mp + 2) div 5 + 1;
          m = (if mp < 10 then mp + 3 else mp - 9);
          y = yoe + era * 400
      in (if m \<le> 2 then y + 1 else y, m, d))"

definition days_in_month :: "int \<Rightarrow> int \<Rightarrow> int" where
  "days_in_month y m =
     (if m = 2 then (if y mod 4 = 0 \<and> (y mod 100 \<noteq> 0 \<or> y mod 400 = 0) then 29 else 28)
      else if m = 4 \<or> m = 6 \<or> m = 9 \<or> m = 11 then 30 else 31)"

definition number_at :: "string \<Rightarrow> nat \<Rightarrow> nat \<Rightarrow> int option" where
  "number_at s pos len =
     (if length s < pos + len then None
      else map_option int (decimal_value 0 (take len (drop pos s))))"

definition char_at :: "string \<Rightarrow> nat \<Rightarrow> char \<Rightarrow> bool" where
  "char_at s pos c \<longleftrightarrow> pos < length s \<and> s ! pos = c"

text \<open>A wall clock \<open>YYYY-MM-DDTHH:mm:ss\<close>, read in UTC.\<close>

definition wall_clock :: "string \<Rightarrow> instant option" where
  "wall_clock s =
     (if char_at s 4 CHR ''-'' \<and> char_at s 7 CHR ''-'' \<and> char_at s 10 CHR ''T''
         \<and> char_at s 13 CHR '':'' \<and> char_at s 16 CHR '':''
      then
        (case (number_at s 0 4, number_at s 5 2, number_at s 8 2,
               number_at s 11 2, number_at s 14 2, number_at s 17 2) of
           (Some y, Some m, Some d, Some h, Some mi, Some sec) \<Rightarrow>
             if 1 \<le> m \<and> m \<le> 12 \<and> 1 \<le> d \<and> d \<le> days_in_month y m
                \<and> h \<le> 23 \<and> mi \<le> 59 \<and> sec \<le> 59
             then Some ((((days_from_civil y m d * 24 + h) * 60 + mi) * 60 + sec) * 1000)
             else None
         | _ \<Rightarrow> None)
      else None)"

text \<open>\<open>Date.parse\<close> on the format that \<open>toISOString\<close> writes.\<close>

definition reference_Date_parse :: "string \<Rightarrow> instant option" where
  "reference_Date_parse s =
     (if length s = 24 \<and> char_at s 19 CHR ''.'' \<and> char_at s 23 CHR ''Z''
      then
        (case (wall_clock (take 19 s), number_at s 20 3) of
           (Some t, Some ms) \<Rightarrow> Some (t + ms)
         | _ \<Rightarrow> None)
      else None)"

fun pad :: "nat \<Rightarrow> nat \<Rightarrow> string" where
  "pad 0 n = []"
| "pad (Suc width) n = pad width (n div 10) @ [char_of (48 + n mod 10)]"

definition date_label :: "instant \<Rightarrow> string" where
  "date_label ms =
     (case civil_from_days (ms div 86400000) of
        (y, m, d) \<Rightarrow> pad 4 (nat y) @ ''-'' @ pad 2 (nat m) @ ''-'' @ pad 2 (nat d))"

definition reference_toISOString :: "instant \<Rightarrow> string" where
  "reference_toISOString ms =
     (let r = ms mod 86400000
      in date_label ms @ ''T'' @ pad 2 (nat (r div 3600000)) @ '':''
           @ pad 2 (nat (r div 60000 mod 60)) @ '':'' @ pad 2 (nat (r div 1000 mod 60))
           @ ''.'' @ pad 3 (nat (r mod 1000)) @ ''Z'')"

text \<open>
  The date functions with UTC as host and as system time zone. A wall clock that does
  not parse reads as the epoch (the model has no invalid dates).
\<close>

definition reference_datelib :: datelib where
  "reference_datelib =
     \<lparr>toZonedTime = (\<lambda>t. t),
      fromZonedTime = (\<lambda>s. case wall_clock s of None \<Rightarrow> 0 | Some t \<Rightarrow> t),
      format_date = date_label,
      getHours = (\<lambda>t. t mod 86400000 div 3600000),
      getDay = (\<lambda>t. nat ((t div 86400000 + 4) mod 7)),
      addDays = (\<lambda>t n. t + n * 86400000)\<rparr>"

subsection \<open>base64url\<close>

definition b64_char :: "int \<Rightarrow> char" where
  "b64_char i =
     (if i < 26 then char_of (65 + i)
      else if i < 52 then char_of (71 + i)
      else if i < 62 then char_of (i - 4)
      else if i = 62 then CHR ''-'' else CHR ''_'')"

definition b64_value :: "char \<Rightarrow> int option" where
  "b64_value c =
     (let n = (of_char c :: int)
      in if 65 \<le> n \<and> n \<le> 90 then Some (n - 65)
         else if 97 \<le> n \<and> n \<le> 122 then Some (n - 71)
         else if 48 \<le> n \<and> n \<le> 57 then Some (n + 4)
         else if n = 45 \<or> n = 43 then Some 62
         else if n = 95 \<or> n = 47 then Some 63
         else None)"

fun sextets :: "bytes \<Rightarrow> int list" where
  "sextets [] = []"
| "sextets [a] = (let x = (of_char a :: int) in [x div 4, x mod 4 * 16])"
| "sextets [a, b] =
     (let x = (of_char a :: int); y = (of_char b :: int)
      in [x div 4, x mod 4 * 16 + y div 16, y mod 16 * 4])"
| "sextets (a # b # c # rest) =
     (let x = (of_char a :: int); y = (of_char b :: int); z = (of_char c :: int)
      in [x div 4, x mod 4 * 16 + y div 16, y mod 16 * 4 + z div 64, z mod 64]
           @ sextets rest)"

fun octets :: "int list \<Rightarrow> bytes" where
  "octets (p # q # r # s # rest) =
     [char_of (p * 4 + q div 16), char_of (q mod 16 * 16 + r div 4),
      char_of (r mod 4 * 64 + s)] @ octets rest"
| "octets [p, q, r] = [char_of (p * 4 + q div 16), char_of (q mod 16 * 16 + r div 4)]"
| "octets [p, q] = [char_of (p * 4 + q div 16)]"
| "octets _ = []"

definition base64url_encode :: "bytes \<Rightarrow> string" where
  "base64url_encode buffer = map b64_char (sextets buffer)"

definition base64url_decode :: "string \<Rightarrow> bytes" where
  "base64url_decode text = octets (List.map_filter b64_value text)"

subsection \<open>JSON text of a payload\<close>

definition hex_char :: "int \<Rightarrow> char" where
  "hex_char d = (if d < 10 then char_of (48 + d) else char_of (87 + d))"

definition hex_value :: "char \<Rightarrow> int option" where
  "hex_value c =
     (let n = (of_char c :: int)
      in if 48 \<le> n \<and> n \<le> 57 then Some (n - 48)
         else if 97 \<le> n \<and> n \<le> 102 then Some (n - 87)
         else if 65 \<le> n \<and> n \<le> 70 then Some (n - 55)
         else None)"

definition escape_char :: "char \<Rightarrow> string" where
  "escape_char c =
     (let n = (of_char c :: int)
      in if c = CHR 0x22 then [CHR 0x5C, CHR 0x22]
         else if c = CHR 0x5C then [CHR 0x5C, CHR 0x5C]
         else if n = 8 then [CHR 0x5C, CHR ''b'']
         else if n = 9 then [CHR 0x5C, CHR ''t'']
         else if n = 10 then [CHR 0x5C, CHR ''n'']
         else if n = 12 then [CHR 0x5C, CHR ''f'']
         else if n = 13 then [CHR 0x5C, CHR ''r'']
         else if n < 32 then [CHR 0x5C, CHR ''u'', CHR ''0'', CHR ''0'', hex_char (n div 16), hex_char (n mod 16)]
         else [c])"

definition quote :: "string \<Rightarrow> string" where
  "quote s = [CHR 0x22] @ concat (map escape_char s) @ [CHR 0x22]"

definition unescape :: "char \<Rightarrow> char option" where
  "unescape e =
     (if e = CHR 0x22 \<or> e = CHR 0x5C \<or> e = CHR ''/'' then Some e
      else if e = CHR ''b'' then Some (CHR 0x08)
      else if e = CHR ''t'' then Some (CHR 0x09)
      else if e = CHR ''n'' then Some (CHR 0x0A)
      else if e = CHR ''f'' then Some (CHR 0x0C)
      else if e = CHR ''r'' then Some (CHR 0x0D)
      else None)"

text \<open>
  The string that starts after an opening quote, up to its closing quote, and the text
  that follows. Of the \<open>\\u\<close> escapes only those below 128 are read.
\<close>

fun unquote :: "string \<Rightarrow> (string \<times> string) option" where
  "unquote [] = None"
| "unquote (c # cs) =
     (if c = CHR 0x22 then Some ([], cs)
      else if c = CHR 0x5C then
        (case cs of
           [] \<Rightarrow> None
         | e # rest \<Rightarrow>
             if e = CHR ''u'' then
               (case rest of
                  a # b # h # l # rest' \<Rightarrow>
                    (case (hex_value a, hex_value b, hex_value h, hex_value l) of
                       (Some va, Some vb, Some hi, Some lo) \<Rightarrow>
                         if va = 0 \<and> vb = 0 \<and> 16 * hi + lo < 128
                         then map_option (\<lambda>(s, r). (char_of (16 * hi + lo) # s, r)) (unquote rest')
                         else None
                     | _ \<Rightarrow> None)
                | _ \<Rightarrow> None)
             else
               (case unescape e of
                  None \<Rightarrow> None
                | Some ch \<Rightarrow> map_option (\<lambda>(s, r). (ch # s, r)) (unquote rest)))
      else if (of_char c :: int) < 32 then None
      else map_option (\<lambda>(s, r). (c # s, r)) (unquote cs))"

text \<open>
  The members of an object, from the opening quote of the first key to the closing
  brace, which must end the text. The first argument bounds the number of members.
\<close>

fun parse_members :: "nat \<Rightarrow> string \<Rightarrow> (string \<times> string) list option" where
  "parse_members 0 text = None"
| "parse_members (Suc fuel) text =
     (case text of
        [] \<Rightarrow> None
      | q # s1 \<Rightarrow>
          if q \<noteq> CHR 0x22 then None
          else
            (case unquote s1 of
               None \<Rightarrow> None
             | Some (key, s2) \<Rightarrow>
                 (case s2 of
                    colon # q2 # s3 \<Rightarrow>
                      if colon \<noteq> CHR '':'' \<or> q2 \<noteq> CHR 0x22 then None
                      else
                        (case unquote s3 of
                           None \<Rightarrow> None
                         | Some (v, s4) \<Rightarrow>
                             (case s4 of
                                [] \<Rightarrow> None
                              | c # s5 \<Rightarrow>
                                  if c = CHR ''}'' \<and> s5 = [] then Some [(key, v)]
                                  else if c = CHR '',''
                                  then map_option ((#) (key, v)) (parse_members fuel s5)
                                  else None))
                  | _ \<Rightarrow> None)))"

definition parse_object :: "string \<Rightarrow> (string \<times> string) list option" where
  "parse_object text =
     (case text of
        [] \<Rightarrow> None
      | c # rest \<Rightarrow>
          if c \<noteq> CHR ''{'' then None
          else if rest = ''}'' then Some []
          else parse_members (length rest) rest)"

definition member_text :: "string \<times> string \<Rightarrow> string" where
  "member_text m = quote (fst m) @ '':'' @ quote (snd m)"

fun join_members :: "(string \<times> string) list \<Rightarrow> string" where
  "join_members [] = []"
| "join_members [m] = member_text m"
| "join_members (m # ms) = member_text m @ '','' @ join_members ms"

definition optional_member :: "string \<Rightarrow> string option \<Rightarrow> (string \<times> string) list" where
  "optional_member key v = (case v of None \<Rightarrow> [] | Some text \<Rightarrow> [(key, text)])"

definition payload_members :: "SignedLinkPayload \<Rightarrow> (string \<times> string) list" where
  "payload_members p =
     [(''action'', action p), (''expiresAt'', expiresAt p),
      (''meetingTypeId'', meetingTypeId p), (''eventId'', eventId p),
      (''guestEmail'', guestEmail p)]
     @ optional_member ''guestName'' (guestName p)
     @ optional_member ''calendarId'' (calendarId p)
     @ optional_member ''slotStart'' (slotStart p)
     @ optional_member ''slotEnd'' (slotEnd p)"

definition reference_JSON_stringify :: "SignedLinkPayload \<Rightarrow> string" where
  "reference_JSON_stringify p = ''{'' @ join_members (payload_members p) @ ''}''"

definition required_member :: "(string \<times> string) list \<Rightarrow> string \<Rightarrow> string" where
  "required_member ms key = (case map_of ms key of None \<Rightarrow> [] | Some text \<Rightarrow> text)"

definition payload_of_members :: "(string \<times> string) list \<Rightarrow> SignedLinkPayload" where
  "payload_of_members ms =
     \<lparr>action = required_member ms ''action'',
      meetingTypeId = required_member ms ''meetingTypeId'',
      eventId = required_member ms ''eventId'',
      guestEmail = required_member ms ''guestEmail'',
      expiresAt = required_member ms ''expiresAt'',
      calendarId = map_of ms ''calendarId'',
      guestName = map_of ms ''guestName'',
      slotStart = map_of ms ''slotStart'',
      slotEnd = map_of ms ''slotEnd''\<rparr>"

text \<open>\<open>JSON.parse\<close> keeps the last of several members with one key.\<close>

definition reference_JSON_parse :: "string \<Rightarrow> SignedLinkPayload option" where
  "reference_JSON_parse text = map_option (\<lambda>ms. payload_of_members (rev ms)) (parse_object text)"

subsection \<open>The platform\<close>

definition checksum :: "string \<Rightarrow> int" where
  "checksum s = sum_list (map of_char s)"

definition keyed_bytes :: "int \<Rightarrow> bytes" where
  "keyed_bytes k = map (\<lambda>i. char_of (k + i)) [0..31]"

definition reference_hmac :: "string \<Rightarrow> string \<Rightarrow> bytes" where
  "reference_hmac secret data = keyed_bytes ((checksum secret * 31 + checksum data * 17) mod 256)"

definition reference_platform :: platform where
  "reference_platform =
     \<lparr>Date_parse = reference_Date_parse,
      Date_toISOString = reference_toISOString,
      Hmac_sha256 = reference_hmac,
      Buffer_toBase64url = base64url_encode,
      Buffer_fromBase64url = base64url_decode,
      Buffer_fromUtf8 = (\<lambda>text. text),
      Buffer_toUtf8 = (\<lambda>buffer. buffer),
      JSON_stringify = reference_JSON_stringify,
      JSON_parse = reference_JSON_parse\<rparr>"

section \<open>Concrete inputs\<close>

text \<open>
  Random draws of six bytes: all zero, which encode to the alias \<open>AAAAAAAA\<close>, and all
  \<open>0xFF\<close>, which encode to \<open>________\<close>.
\<close>

definition zero_draws :: "nat \<Rightarrow> bytes" where
  "zero_draws attempt = replicate ALIAS_BYTE_LENGTH (CHR 0x00)"

definition ff_draws :: "nat \<Rightarrow> bytes" where
  "ff_draws attempt = replicate ALIAS_BYTE_LENGTH (CHR 0xFF)"

text \<open>A store with one alias that expires one second after the epoch.\<close>

definition expiring_store :: StoredAliasRecords where
  "expiring_store =
     [(''AAAAAAAA'', \<lparr>alias_token = ''token-expiring'',
                      alias_expiresAt = ''1970-01-01T00:00:01.000Z'',
                      alias_createdAt = 0\<rparr>)]"

text \<open>A store with one alias, of another token, that expires after nine seconds.\<close>

definition occupied_store :: StoredAliasRecords where
  "occupied_store =
     [(''AAAAAAAA'', \<lparr>alias_token = ''token-abc'',
                      alias_expiresAt = ''1970-01-01T00:00:09.000Z'',
                      alias_createdAt = 0\<rparr>)]"

text \<open>A store with one alias whose \<open>expiresAt\<close> is not a date.\<close>

definition undated_store :: StoredAliasRecords where
  "undated_store =
     [(''AAAAAAAA'', \<lparr>alias_token = ''token-abc'', alias_expiresAt = ''never'',
                      alias_createdAt = 0\<rparr>)]"

text \<open>Four busy intervals, out of order; two overlap and two are adjacent.\<close>

definition busy_example :: "BusyInterval list" where
  "busy_example =
     [\<lparr>busy_start = 10, busy_end = 20\<rparr>, \<lparr>busy_start = 5, busy_end = 10\<rparr>,
      \<lparr>busy_start = 30, busy_end = 40\<rparr>, \<lparr>busy_start = 12, busy_end = 15\<rparr>]"

text \<open>
  A configuration with one meeting type of 30 minutes, one rule for Wednesday from 09:00
  to 13:00, a look-ahead of one day and a lead time of 30 minutes; with the reference
  date functions the host time zone is UTC. 1 January 2025 is a Wednesday.
\<close>

definition intro_30 :: MeetingType where
  "intro_30 =
     \<lparr>mt_id = ''intro-30'', mt_title = ''Introductory Call'', mt_description = None,
      durationMinutes = 30, isActive = True\<rparr>"

definition example_config :: config where
  "example_config =
     \<lparr>meetingTypes = [intro_30],
      availabilityRules = [\<lparr>weekday = ''wednesday'', rule_start = ''09:00'', rule_end = ''13:00''\<rparr>],
      maxDaysOut = 1,
      minNoticeMinutes = 30\<rparr>"





text \<open>
  Reschedule links signed with the secret \<open>test-signing-secret\<close>, valid until
  1 February 2025, for a booking at 16:00 UTC on 15 January 2025: one for the configured
  meeting type, one for a meeting type that is no longer configured.
\<close>

definition reschedule_payload :: "string \<Rightarrow> SignedLinkPayload" where
  "reschedule_payload meetingType =
     \<lparr>action = ''reschedule'', meetingTypeId = meetingType, eventId = ''evt-123'',
      guestEmail = ''guest@example.com'', expiresAt = ''2025-02-01T00:00:00.000Z'',
      calendarId = Some ''primary'', guestName = Some ''Guest Name'',
      slotStart = Some ''2025-01-15T16:00:00.000Z'',
      slotEnd = Some ''2025-01-15T16:30:00.000Z''\<rparr>"

definition signed :: "SignedLinkPayload \<Rightarrow> string" where
  "signed payload =
     (case signLinkPayload reference_platform (Some ''test-signing-secret'') payload of
        Inl e \<Rightarrow> []
      | Inr tok \<Rightarrow> tok)"



text \<open>The fields of a booking, for minting management links.\<close>

definition booking_fields :: LinkPayloadInput where
  "booking_fields =
     \<lparr>input_meetingTypeId = ''intro-30'', input_eventId = ''evt-123'',
      input_guestEmail = ''guest@example.com'', input_calendarId = Some ''primary'',
      input_guestName = Some ''Guest McGuest'',
      input_slotStart = Some ''2025-01-15T16:00:00.000Z'',
      input_slotEnd = Some ''2025-01-15T16:30:00.000Z''\<rparr>"

section \<open>Properties of the alias store\<close>

lemma delete_key_filter:
  "delete_key k (filter Q records) = filter (\<lambda>e. Q e \<and> fst e \<noteq> k) records"
  by (induction records) (auto simp: delete_key_def)

lemma purge_loop_eq:
  "purge_loop P now es (records, n, ch) =
     (filter (\<lambda>e. fst e \<notin> fst ` {x \<in> set es. entry_expired P now x}) records,
      n + length (filter (entry_expired P now) es),
      ch \<or> (\<exists>x\<in>set es. entry_expired P now x))"
proof (induction es arbitrary: records n ch)
  case Nil
  then show ?case by simp
next
  case (Cons e es)
  have *: "filter (\<lambda>x. fst x \<notin> fst ` {x \<in> set es. entry_expired P now x}) (delete_key (fst e) records)
        = filter (\<lambda>x. fst x \<notin> fst ` {x \<in> set (e # es). entry_expired P now x}) records"
    if "entry_expired P now e"
    using that by (auto simp: delete_key_def intro!: filter_cong)
  have **: "{x \<in> set (e # es). entry_expired P now x} = {x \<in> set es. entry_expired P now x}"
    if "\<not> entry_expired P now e"
    using that by auto
  show ?case
  proof (cases "entry_expired P now e")
    case True
    then show ?thesis using Cons.IH * by auto
  next
    case False
    then show ?thesis using Cons.IH ** by auto
  qed
qed

lemma distinct_filter_keys:
  assumes "distinct (map fst records)"
  shows "filter (\<lambda>e. fst e \<notin> fst ` {x \<in> set records. Q x}) records = filter (\<lambda>e. \<not> Q e) records"
proof (rule filter_cong[OF refl])
  fix e assume e: "e \<in> set records"
  have "fst e \<in> fst ` {x \<in> set records. Q x} \<longleftrightarrow> Q e"
  proof
    assume "fst e \<in> fst ` {x \<in> set records. Q x}"
    then obtain x where x: "x \<in> set records" "Q x" "fst x = fst e" by auto
    from assms x(1) e x(3) have "x = e"
      by (metis distinct_map inj_onD)
    with x show "Q e" by simp
  next
    assume "Q e" with e show "fst e \<in> fst ` {x \<in> set records. Q x}" by auto
  qed
  then show "(fst e \<notin> fst ` {x \<in> set records. Q x}) = (\<not> Q e)" by simp
qed

lemma purgeExpired_eq:
  assumes "distinct (map fst store)"
  shows "purgeExpiredManageAliases P now store =
           (length (filter (entry_expired P now) store),
            filter (\<lambda>e. \<not> entry_expired P now e) store)"
proof -
  have "filter (\<lambda>e. \<not> entry_expired P now e) store = store"
    if "\<not> (\<exists>x\<in>set store. entry_expired P now x)"
    using that by (induction store) auto
  then show ?thesis
    unfolding purgeExpiredManageAliases_def purge_loop_eq
    using distinct_filter_keys[OF assms, of "entry_expired P now"] by auto
qed


lemma insert_index_split:
  "\<exists>xs ys. insert_index n a r rs = xs @ (a, r) # ys \<and> rs = xs @ ys"
proof (induction rs)
  case Nil
  then show ?case by simp
next
  case (Cons e rs)
  then obtain xs ys where IH: "insert_index n a r rs = xs @ (a, r) # ys" "rs = xs @ ys"
    by blast
  show ?case
  proof (cases "\<exists>m. array_index (fst e) = Some m \<and> m < n")
    case True
    then have "insert_index n a r (e # rs) = (e # xs) @ (a, r) # ys" "e # rs = (e # xs) @ ys"
      using IH by auto
    then show ?thesis by blast
  next
    case False
    then have "insert_index n a r (e # rs) = [] @ (a, r) # (e # rs)"
      by (auto split: option.splits)
    then show ?thesis by blast
  qed
qed

lemma insert_key_split:
  "\<exists>xs ys. insert_key a r rs = xs @ (a, r) # ys \<and> rs = xs @ ys"
proof (cases "array_index a")
  case None
  then have "insert_key a r rs = rs @ (a, r) # []" "rs = rs @ []"
    by (simp_all add: insert_key_def)
  then show ?thesis by blast
next
  case (Some n)
  then show ?thesis using insert_index_split[of n a r rs] by (simp add: insert_key_def)
qed

lemma map_of_delete_key:
  "k' \<noteq> k \<Longrightarrow> map_of (delete_key k records) k' = map_of records k'"
  by (induction records) (auto simp: delete_key_def)

lemma distinct_delete_key:
  "distinct (map fst records) \<Longrightarrow> distinct (map fst (delete_key k records))"
  by (simp add: delete_key_def distinct_map_filter)

lemma holds_record_delete:
  "holds_record alias record records \<Longrightarrow> k \<noteq> alias \<Longrightarrow>
   holds_record alias record (delete_key k records)"
  by (simp add: holds_record_def map_of_delete_key distinct_delete_key)

lemma holds_record_insert:
  assumes "holds_record alias record records" "map_of records k = None"
  shows "holds_record alias record (insert_key k v records)"
proof -
  obtain xs ys where s: "insert_key k v records = xs @ (k, v) # ys" "records = xs @ ys"
    using insert_key_split by blast
  have k: "k \<notin> fst ` set records" using assms(2) by (simp add: map_of_eq_None_iff)
  have ne: "k \<noteq> alias" using assms by (auto simp: holds_record_def)
  have "distinct (map fst (xs @ (k, v) # ys))"
    using assms(1) k s(2) by (auto simp: holds_record_def)
  moreover have "map_of (xs @ (k, v) # ys) alias = map_of (xs @ ys) alias"
    using ne by (simp add: map_of_append map_add_def split: option.splits)
  ultimately show ?thesis using assms(1) s by (simp add: holds_record_def)
qed

lemma get_property_None:
  "get_property records key = None \<Longrightarrow> map_of records key = None"
  by (simp add: get_property_def split: option.splits if_splits)

lemma get_property_Own:
  "get_property records key = Some (Own record) \<longleftrightarrow> map_of records key = Some record"
  by (simp add: get_property_def split: option.splits)

lemma get_property_Inherited:
  "get_property records key = Some (Inherited name) \<Longrightarrow> map_of records key = None"
  by (simp add: get_property_def split: option.splits if_splits)

lemma scan_existing_holds:
  assumes "holds_record alias record records"
      and "\<forall>e\<in>set es. fst e = alias \<longrightarrow> \<not> entry_expired P now e"
  shows "holds_record alias record (fst (scan_existing P now tok es (records, ch)))"
  using assms
  by (induction es arbitrary: records ch) (auto intro: holds_record_delete)

lemma generate_loop_holds:
  assumes "holds_record alias record records"
      and "\<not> isExpired P (alias_expiresAt record) now"
  shows "holds_record alias record
           (fst (generate_loop P now random tok expires remaining attempt (records, ch)))"
  using assms
proof (induction remaining arbitrary: attempt records ch)
  case 0
  then show ?case by simp
next
  case (Suc remaining)
  show ?case
  proof (cases "get_property records (generateAlias P (random attempt))")
    case None
    then have "map_of records (generateAlias P (random attempt)) = None"
      by (rule get_property_None)
    then show ?thesis using None Suc.prems by (simp add: holds_record_insert Let_def)
  next
    case (Some found)
    show ?thesis
    proof (cases found)
      case (Inherited name)
      then show ?thesis using Some Suc by (simp add: Let_def)
    next
      case (Own r)
      then have own: "map_of records (generateAlias P (random attempt)) = Some r"
        using Some by (simp add: get_property_Own)
      show ?thesis
      proof (cases "isExpired P (alias_expiresAt r) now")
        case True
        then have "generateAlias P (random attempt) \<noteq> alias"
          using own Suc.prems by (auto simp: holds_record_def)
        then show ?thesis using Some Own True Suc by (simp add: holds_record_delete Let_def)
      next
        case False
        then show ?thesis using Some Own Suc by (simp add: Let_def)
      qed
    qed
  qed
qed

lemma holds_record_entry:
  "holds_record alias record records \<Longrightarrow> e \<in> set records \<Longrightarrow> fst e = alias \<Longrightarrow> snd e = record"
  by (cases e) (auto simp: holds_record_def)

lemma register_holds:
  assumes h: "holds_record alias record store"
      and live: "\<not> isExpired P (alias_expiresAt record) now"
  shows "holds_record alias record (snd (registerManageLinkAlias P now random tok expires store))"
proof -
  have es: "\<forall>e\<in>set store. fst e = alias \<longrightarrow> \<not> entry_expired P now e"
    using holds_record_entry[OF h] live by auto
  obtain records ch ex where sc: "scan_existing P now tok store (store, False) = (records, ch, ex)"
    by (cases "scan_existing P now tok store (store, False)") auto
  have r: "holds_record alias record records"
    using scan_existing_holds[OF h es, of tok False] sc by simp
  obtain records' ch' g where gl:
    "generate_loop P now random tok expires MAX_GENERATION_ATTEMPTS 0 (records, ch) = (records', ch', g)"
    by (cases "generate_loop P now random tok expires MAX_GENERATION_ATTEMPTS 0 (records, ch)") auto
  have r': "holds_record alias record records'"
    using generate_loop_holds[OF r live, of random tok expires MAX_GENERATION_ATTEMPTS 0 ch] gl by simp
  show ?thesis
    using h r r' sc gl by (simp add: registerManageLinkAlias_def)
qed

lemma resolve_holds:
  assumes h: "holds_record alias record store"
      and live: "\<not> isExpired P (alias_expiresAt record) now"
  shows "holds_record alias record (snd (resolveManageLinkAlias P now a store))"
proof (cases "a = alias")
  case True
  then have "get_property store a = Some (Own record)"
    using h by (simp add: get_property_Own holds_record_def)
  then show ?thesis using h live True by (auto simp: resolveManageLinkAlias_def)
next
  case False
  then show ?thesis using h
    by (auto simp: resolveManageLinkAlias_def holds_record_delete
             split: option.splits property_value.splits)
qed

text \<open>
  An alias that names a property of \<open>Object.prototype\<close> and no record of the store
  resolves to the inherited value, and the store is left as it is.
\<close>

lemma resolve_inherited_property:
  assumes "alias \<in> set Object_prototype_keys" and "map_of store alias = None"
  shows "resolveManageLinkAlias P now alias store = (Some (Inherited alias), store)"
proof -
  have "alias \<noteq> []" using assms(1) by (auto simp: Object_prototype_keys_def)
  moreover have "get_property store alias = Some (Inherited alias)"
    using assms by (simp add: get_property_def)
  ultimately show ?thesis by (simp add: resolveManageLinkAlias_def)
qed

lemma map_of_filter_keep:
  "map_of rs k = Some v \<Longrightarrow> Q (k, v) \<Longrightarrow> map_of (filter Q rs) k = Some v"
  by (induction rs) (auto split: if_splits)

lemma purge_holds:
  assumes h: "holds_record alias record store"
      and live: "\<not> isExpired P (alias_expiresAt record) now"
  shows "holds_record alias record (snd (purgeExpiredManageAliases P now store))"
proof -
  have d: "distinct (map fst store)" using h by (simp add: holds_record_def)
  have "map_of (filter (\<lambda>e. \<not> entry_expired P now e) store) alias = Some record"
    using h live by (intro map_of_filter_keep) (auto simp: holds_record_def)
  then show ?thesis
    using d by (simp add: purgeExpired_eq[OF d] holds_record_def distinct_map_filter)
qed


lemma isExpired_unparseable:
  "Date_parse P expires = None \<Longrightarrow> \<not> isExpired P expires now"
  by (simp add: isExpired_def)

lemma run_calls_holds:
  assumes "holds_record alias record store"
      and "Date_parse P (alias_expiresAt record) = None"
  shows "holds_record alias record (run_calls P calls store)"
  using assms(1)
proof (induction calls arbitrary: store)
  case Nil
  then show ?case by simp
next
  case (Cons c calls)
  have live: "\<not> isExpired P (alias_expiresAt record) now" for now
    using assms(2) by (rule isExpired_unparseable)
  have "holds_record alias record (apply_call P c store)"
    using Cons.prems live
    by (cases c) (simp_all add: register_holds resolve_holds purge_holds)
  then show ?case using Cons.IH by simp
qed

lemma purge_count_without:
  assumes "holds_record alias record store"
      and "\<not> isExpired P (alias_expiresAt record) now"
  shows "fst (purgeExpiredManageAliases P now store) =
         fst (purgeExpiredManageAliases P now (delete_key alias store))"
proof -
  have d: "distinct (map fst store)" using assms(1) by (simp add: holds_record_def)
  have "filter (entry_expired P now) (delete_key alias store) = filter (entry_expired P now) store"
    unfolding delete_key_def filter_filter
    using holds_record_entry[OF assms(1)] assms(2)
    by (intro filter_cong) auto
  then show ?thesis
    by (simp add: purgeExpired_eq[OF d] purgeExpired_eq[OF distinct_delete_key[OF d]])
qed

text \<open>
  C10. A stored record whose \<open>expiresAt\<close> does not parse as a date is never expired:
  \<open>resolveManageLinkAlias\<close> returns it and leaves the store as it is,
  \<open>purgeExpiredManageAliases\<close> keeps it and counts what it would count without it, and
  after any run of register, resolve and purge calls the record is still stored.
\<close>

theorem unparseable_expiry_never_expires:
  assumes "Date_parse P (alias_expiresAt record) = None"
      and "distinct (map fst store)"
      and "map_of store alias = Some record"
      and "alias \<noteq> []"
  shows "\<not> isExpired P (alias_expiresAt record) now
       \<and> resolveManageLinkAlias P now alias store = (Some (Own record), store)
       \<and> map_of (snd (purgeExpiredManageAliases P now store)) alias = Some record
       \<and> fst (purgeExpiredManageAliases P now store)
           = fst (purgeExpiredManageAliases P now (delete_key alias store))
       \<and> map_of (run_calls P calls store) alias = Some record"
proof -
  have h: "holds_record alias record store"
    using assms(2,3) by (simp add: holds_record_def)
  have live: "\<not> isExpired P (alias_expiresAt record) t" for t
    using assms(1) by (rule isExpired_unparseable)
  have "get_property store alias = Some (Own record)"
    using assms(3) by (simp add: get_property_Own)
  then have "resolveManageLinkAlias P now alias store = (Some (Own record), store)"
    using assms(4) live by (simp add: resolveManageLinkAlias_def)
  moreover have "map_of (snd (purgeExpiredManageAliases P now store)) alias = Some record"
    using purge_holds[OF h live] by (simp add: holds_record_def)
  moreover have "map_of (run_calls P calls store) alias = Some record"
    using run_calls_holds[OF h assms(1)] by (simp add: holds_record_def)
  ultimately show ?thesis
    using live purge_count_without[OF h live] by simp
qed

text \<open>
  The theorem at a stored record with the \<open>expiresAt\<close> string \<open>never\<close>, on the reference
  platform.
\<close>

theorem unparseable_expiry_never_expires_witness:
  "Date_parse reference_platform ''never'' = None
   \<and> resolveManageLinkAlias reference_platform 1500 ''AAAAAAAA'' undated_store
       = (Some (Own \<lparr>alias_token = ''token-abc'', alias_expiresAt = ''never'',
                      alias_createdAt = 0\<rparr>),
          undated_store)
   \<and> fst (purgeExpiredManageAliases reference_platform 1500 undated_store) = 0
   \<and> map_of (run_calls reference_platform
               [Purge 1500, Register 1600 ff_draws ''token-123'' ''1970-01-01T00:00:01.000Z'',
                Resolve 1700 ''AAAAAAAA'']
               undated_store) ''AAAAAAAA''
       = Some \<lparr>alias_token = ''token-abc'', alias_expiresAt = ''never'', alias_createdAt = 0\<rparr>"
proof -
  let ?r = "\<lparr>alias_token = ''token-abc'', alias_expiresAt = ''never'', alias_createdAt = 0\<rparr>"
  have h1: "Date_parse reference_platform (alias_expiresAt ?r) = None"
    by (simp add: reference_platform_def reference_Date_parse_def)
  have h2: "distinct (map fst undated_store)" by (simp add: undated_store_def)
  have h3: "map_of undated_store ''AAAAAAAA'' = Some ?r" by (simp add: undated_store_def)
  have h4: "''AAAAAAAA'' \<noteq> []" by simp
  have e: "fst (purgeExpiredManageAliases reference_platform 1500 (delete_key ''AAAAAAAA'' undated_store)) = 0"
    by (simp add: undated_store_def delete_key_def purgeExpiredManageAliases_def)
  show ?thesis
    using unparseable_expiry_never_expires[OF h1 h2 h3 h4, of 1500
        "[Purge 1500, Register 1600 ff_draws ''token-123'' ''1970-01-01T00:00:01.000Z'',
          Resolve 1700 ''AAAAAAAA'']"] h1 e
    by simp
qed

lemma scan_existing_finds:
  assumes "\<forall>x\<in>set xs. entry_expired P now x \<or> alias_token (snd x) \<noteq> tok"
      and "\<not> entry_expired P now m" and "alias_token (snd m) = tok"
  shows "snd (snd (scan_existing P now tok (xs @ m # ys) (records, ch))) = Some (fst m)"
  using assms by (induction xs arbitrary: records ch) auto

lemma scan_existing_Some:
  assumes "scan_existing P now tok es (records, ch) = (records', ch', Some a)"
  shows "\<exists>pre m post. es = pre @ m # post \<and> fst m = a \<and> \<not> entry_expired P now m
           \<and> alias_token (snd m) = tok
           \<and> (\<forall>e\<in>set pre. entry_expired P now e \<or> alias_token (snd e) \<noteq> tok)
           \<and> records' = filter (\<lambda>e. fst e \<notin> fst ` {x \<in> set pre. entry_expired P now x}) records"
  using assms
proof (induction es arbitrary: records ch)
  case Nil
  then show ?case by simp
next
  case (Cons e es)
  show ?case
  proof (cases "entry_expired P now e")
    case True
    then have "scan_existing P now tok es (delete_key (fst e) records, True) = (records', ch', Some a)"
      using Cons.prems by simp
    from Cons.IH[OF this] obtain pre m post where IH:
      "es = pre @ m # post" "fst m = a" "\<not> entry_expired P now m" "alias_token (snd m) = tok"
      "\<forall>e\<in>set pre. entry_expired P now e \<or> alias_token (snd e) \<noteq> tok"
      "records' = filter (\<lambda>x. fst x \<notin> fst ` {x \<in> set pre. entry_expired P now x})
                    (delete_key (fst e) records)"
      by blast
    have "records' = filter (\<lambda>x. fst x \<notin> fst ` {x \<in> set (e # pre). entry_expired P now x}) records"
      unfolding IH(6) using True by (auto simp: delete_key_def intro!: filter_cong)
    moreover have "e # es = (e # pre) @ m # post" using IH(1) by simp
    moreover have "\<forall>x\<in>set (e # pre). entry_expired P now x \<or> alias_token (snd x) \<noteq> tok"
      using IH(5) True by simp
    ultimately show ?thesis using IH(2,3,4) by blast
  next
    case False
    show ?thesis
    proof (cases "alias_token (snd e) = tok")
      case True
      then have "records' = records" "a = fst e" using Cons.prems False by simp_all
      then have "e # es = [] @ e # es \<and> fst e = a \<and> \<not> entry_expired P now e
           \<and> alias_token (snd e) = tok
           \<and> (\<forall>x\<in>set []. entry_expired P now x \<or> alias_token (snd x) \<noteq> tok)
           \<and> records' = filter (\<lambda>x. fst x \<notin> fst ` {x \<in> set []. entry_expired P now x}) records"
        using True False by simp
      then show ?thesis by blast
    next
      case neq: False
      then have "scan_existing P now tok es (records, ch) = (records', ch', Some a)"
        using Cons.prems False by simp
      from Cons.IH[OF this] obtain pre m post where IH:
        "es = pre @ m # post" "fst m = a" "\<not> entry_expired P now m" "alias_token (snd m) = tok"
        "\<forall>e\<in>set pre. entry_expired P now e \<or> alias_token (snd e) \<noteq> tok"
        "records' = filter (\<lambda>x. fst x \<notin> fst ` {x \<in> set pre. entry_expired P now x}) records"
        by blast
      have "{x \<in> set (e # pre). entry_expired P now x} = {x \<in> set pre. entry_expired P now x}"
        using False by auto
      then have "records' = filter (\<lambda>x. fst x \<notin> fst ` {x \<in> set (e # pre). entry_expired P now x}) records"
        using IH(6) by simp
      moreover have "e # es = (e # pre) @ m # post" using IH(1) by simp
      moreover have "\<forall>x\<in>set (e # pre). entry_expired P now x \<or> alias_token (snd x) \<noteq> tok"
        using IH(5) neq by simp
      ultimately show ?thesis using IH(2,3,4) by blast
    qed
  qed
qed

lemma scan_existing_None:
  assumes "scan_existing P now tok es (records, ch) = (records', ch', None)"
  shows "(\<forall>e\<in>set es. entry_expired P now e \<or> alias_token (snd e) \<noteq> tok)
       \<and> records' = filter (\<lambda>e. fst e \<notin> fst ` {x \<in> set es. entry_expired P now x}) records"
  using assms
proof (induction es arbitrary: records ch)
  case Nil
  then show ?case by simp
next
  case (Cons e es)
  show ?case
  proof (cases "entry_expired P now e")
    case True
    then have "scan_existing P now tok es (delete_key (fst e) records, True) = (records', ch', None)"
      using Cons.prems by simp
    from Cons.IH[OF this] have IH:
      "\<forall>e\<in>set es. entry_expired P now e \<or> alias_token (snd e) \<noteq> tok"
      "records' = filter (\<lambda>x. fst x \<notin> fst ` {x \<in> set es. entry_expired P now x})
                    (delete_key (fst e) records)"
      by blast+
    have "records' = filter (\<lambda>x. fst x \<notin> fst ` {x \<in> set (e # es). entry_expired P now x}) records"
      unfolding IH(2) using True by (auto simp: delete_key_def intro!: filter_cong)
    then show ?thesis using IH(1) True by simp
  next
    case False
    then have neq: "alias_token (snd e) \<noteq> tok" using Cons.prems by (auto split: if_splits)
    then have "scan_existing P now tok es (records, ch) = (records', ch', None)"
      using Cons.prems False by simp
    from Cons.IH[OF this] have IH:
      "\<forall>e\<in>set es. entry_expired P now e \<or> alias_token (snd e) \<noteq> tok"
      "records' = filter (\<lambda>x. fst x \<notin> fst ` {x \<in> set es. entry_expired P now x}) records"
      by blast+
    have "{x \<in> set (e # es). entry_expired P now x} = {x \<in> set es. entry_expired P now x}"
      using False by auto
    then show ?thesis using IH neq by simp
  qed
qed

lemma filter_prefix_keys:
  assumes "distinct (map fst (pre @ post))"
  shows "filter (\<lambda>e. fst e \<notin> fst ` {x \<in> set pre. Q x}) (pre @ post) = filter (\<lambda>e. \<not> Q e) pre @ post"
proof -
  have d: "distinct (map fst pre)" using assms by simp
  have 1: "filter (\<lambda>e. fst e \<notin> fst ` {x \<in> set pre. Q x}) pre = filter (\<lambda>e. \<not> Q e) pre"
    by (rule distinct_filter_keys[OF d])
  have disj: "fst ` set pre \<inter> fst ` set post = {}"
    using assms by simp
  have "fst e \<notin> fst ` {x \<in> set pre. Q x}" if "e \<in> set post" for e
  proof -
    have "fst e \<in> fst ` set post" using that by simp
    then have "fst e \<notin> fst ` set pre" using disj by blast
    then show ?thesis by blast
  qed
  then have 2: "filter (\<lambda>e. fst e \<notin> fst ` {x \<in> set pre. Q x}) post = post"
    by (simp add: filter_id_conv)
  show ?thesis using 1 2 by simp
qed



lemma generate_loop_Some:
  assumes "generate_loop P now random tok expires n attempt (records, ch) = (records', ch', Some a)"
  shows "\<exists>D. records' = insert_key a \<lparr>alias_token = tok, alias_expiresAt = expires, alias_createdAt = now\<rparr>
                          (filter (\<lambda>e. fst e \<notin> D) records)
           \<and> map_of (filter (\<lambda>e. fst e \<notin> D) records) a = None \<and> ch'"
  using assms
proof (induction n arbitrary: attempt records ch)
  case 0
  then show ?case by simp
next
  case (Suc n)
  let ?c = "generateAlias P (random attempt)"
  show ?case
  proof (cases "get_property records ?c")
    case None
    then have "map_of records ?c = None" by (rule get_property_None)
    then have "records' = insert_key a \<lparr>alias_token = tok, alias_expiresAt = expires, alias_createdAt = now\<rparr>
                          (filter (\<lambda>e. fst e \<notin> {}) records)
           \<and> map_of (filter (\<lambda>e. fst e \<notin> {}) records) a = None \<and> ch'"
      using Suc.prems None by (auto simp: Let_def)
    then show ?thesis by blast
  next
    case (Some found)
    show ?thesis
    proof (cases "\<exists>r. found = Own r \<and> isExpired P (alias_expiresAt r) now")
      case True
      then have "generate_loop P now random tok expires n (attempt + 1)
                   (delete_key ?c records, True) = (records', ch', Some a)"
        using Suc.prems Some by (auto simp: Let_def)
      from Suc.IH[OF this] obtain D where D:
        "records' = insert_key a \<lparr>alias_token = tok, alias_expiresAt = expires, alias_createdAt = now\<rparr>
                          (filter (\<lambda>e. fst e \<notin> D) (delete_key ?c records))"
        "map_of (filter (\<lambda>e. fst e \<notin> D) (delete_key ?c records)) a = None" "ch'"
        by blast
      have "filter (\<lambda>e. fst e \<notin> D) (delete_key ?c records)
              = filter (\<lambda>e. fst e \<notin> insert ?c D) records"
        by (auto simp: delete_key_def intro!: filter_cong)
      then show ?thesis using D by metis
    next
      case False
      then have "generate_loop P now random tok expires n (attempt + 1) (records, ch)
                   = (records', ch', Some a)"
        using Suc.prems Some by (cases found) (auto simp: Let_def)
      from Suc.IH[OF this] show ?thesis .
    qed
  qed
qed

lemma generate_loop_None_store:
  assumes "generate_loop P now random tok expires n attempt (records, ch) = (records', ch', g)"
      and "\<forall>e\<in>set records. \<not> entry_expired P now e"
  shows "g = None \<longrightarrow> records' = records \<and> ch' = ch"
  using assms
proof (induction n arbitrary: attempt)
  case 0
  then show ?case by simp
next
  case (Suc n)
  show ?case
  proof (cases "get_property records (generateAlias P (random attempt))")
    case None
    then show ?thesis using Suc.prems by (auto simp: Let_def)
  next
    case (Some found)
    show ?thesis
    proof (cases found)
      case (Inherited name)
      then show ?thesis using Suc Some by (simp add: Let_def)
    next
      case (Own r)
      then have "map_of records (generateAlias P (random attempt)) = Some r"
        using Some by (simp add: get_property_Own)
      then have "(generateAlias P (random attempt), r) \<in> set records" by (rule map_of_SomeD)
      then have "\<not> isExpired P (alias_expiresAt r) now" using Suc.prems(2) by force
      then show ?thesis using Suc Some Own by (simp add: Let_def)
    qed
  qed
qed

lemma scan_existing_flag:
  "scan_existing P now tok es (records, True) = (records', ch', ex) \<Longrightarrow> ch'"
  by (induction es arbitrary: records) (auto split: if_splits)

lemma scan_existing_unchanged:
  "scan_existing P now tok es (records, ch) = (records', ch', ex) \<Longrightarrow> \<not> ch' \<Longrightarrow> records' = records"
  by (induction es arbitrary: records ch) (auto split: if_splits dest: scan_existing_flag)

text \<open>The shape of the store after a registration that returns an alias.\<close>

lemma register_shape:
  assumes d: "distinct (map fst store)"
      and ne: "[] \<notin> fst ` set store"
      and reg: "registerManageLinkAlias P now random tok expires store = (Some a, store')"
  shows "\<exists>xs r ys. store' = xs @ (a, r) # ys
           \<and> (\<forall>x\<in>set xs. alias_token (snd x) \<noteq> tok)
           \<and> alias_token r = tok \<and> distinct (map fst store') \<and> tok \<noteq> []
           \<and> (tok \<notin> alias_token ` snd ` set store \<longrightarrow>
                r = \<lparr>alias_token = tok, alias_expiresAt = expires, alias_createdAt = now\<rparr>)"
proof -
  have tok: "tok \<noteq> []" using reg by (auto simp: registerManageLinkAlias_def)
  obtain records ch ex where sc: "scan_existing P now tok store (store, False) = (records, ch, ex)"
    by (cases "scan_existing P now tok store (store, False)") auto
  show ?thesis
  proof (cases ex)
    case (Some e)
    from scan_existing_Some[OF sc[unfolded Some]] obtain pre m post where sp:
      "store = pre @ m # post" "fst m = e" "\<not> entry_expired P now m" "alias_token (snd m) = tok"
      "\<forall>x\<in>set pre. entry_expired P now x \<or> alias_token (snd x) \<noteq> tok"
      "records = filter (\<lambda>x. fst x \<notin> fst ` {x \<in> set pre. entry_expired P now x}) store"
      by blast
    have e: "e \<noteq> []" using ne sp(1,2) by force
    have rec: "records = filter (\<lambda>x. \<not> entry_expired P now x) pre @ m # post"
      using filter_prefix_keys[of pre "m # post" "entry_expired P now"] d sp(1,6) by simp
    have same: "(if ch then records else store) = records"
      using scan_existing_unchanged[OF sc] by simp
    have res: "a = e" "store' = records"
      using reg sc Some e tok same by (simp_all add: registerManageLinkAlias_def)
    have "store' = filter (\<lambda>x. \<not> entry_expired P now x) pre @ (a, snd m) # post"
      using rec res sp(2) by (cases m) simp
    moreover have "\<forall>x\<in>set (filter (\<lambda>x. \<not> entry_expired P now x) pre). alias_token (snd x) \<noteq> tok"
      using sp(5) by auto
    moreover have "distinct (map fst store')"
      unfolding res(2) sp(6) using d by (simp add: distinct_map_filter)
    moreover have "tok \<in> alias_token ` snd ` set store"
      using sp(1,4) by force
    ultimately show ?thesis using sp(4) tok by blast
  next
    case None
    from scan_existing_None[OF sc[unfolded None]] have sn:
      "\<forall>e\<in>set store. entry_expired P now e \<or> alias_token (snd e) \<noteq> tok"
      "records = filter (\<lambda>e. fst e \<notin> fst ` {x \<in> set store. entry_expired P now x}) store"
      by blast+
    have rec: "records = filter (\<lambda>e. \<not> entry_expired P now e) store"
      using sn(2) distinct_filter_keys[OF d] by simp
    obtain records' ch' g where gl:
      "generate_loop P now random tok expires MAX_GENERATION_ATTEMPTS 0 (records, ch) = (records', ch', g)"
      by (cases "generate_loop P now random tok expires MAX_GENERATION_ATTEMPTS 0 (records, ch)") auto
    have g: "g = Some a" "store' = (if ch' then records' else store)"
      using reg sc None gl tok by (simp_all add: registerManageLinkAlias_def)
    let ?new = "\<lparr>alias_token = tok, alias_expiresAt = expires, alias_createdAt = now\<rparr>"
    from generate_loop_Some[OF gl[unfolded g(1)]] obtain D where D:
      "records' = insert_key a ?new (filter (\<lambda>e. fst e \<notin> D) records)"
      "map_of (filter (\<lambda>e. fst e \<notin> D) records) a = None" "ch'"
      by blast
    let ?kept = "filter (\<lambda>e. fst e \<notin> D) records"
    obtain xs ys where sp: "insert_key a ?new ?kept = xs @ (a, ?new) # ys" "?kept = xs @ ys"
      using insert_key_split by blast
    have st: "store' = xs @ (a, ?new) # ys" using g(2) D(1,3) sp(1) by simp
    have sub: "set xs \<union> set ys \<subseteq> set records"
      using sp(2) by (metis filter_is_subset set_append)
    have "\<forall>x\<in>set xs. alias_token (snd x) \<noteq> tok"
      using sub rec sn(1) by auto
    moreover have "distinct (map fst store')"
    proof -
      have "distinct (map fst ?kept)" using d rec by (simp add: distinct_map_filter)
      moreover have "a \<notin> fst ` set ?kept" using D(2) by (simp add: map_of_eq_None_iff)
      ultimately show ?thesis unfolding st using sp(2) by auto
    qed
    ultimately have "store' = xs @ (a, ?new) # ys
           \<and> (\<forall>x\<in>set xs. alias_token (snd x) \<noteq> tok)
           \<and> alias_token ?new = tok \<and> distinct (map fst store') \<and> tok \<noteq> []
           \<and> (tok \<notin> alias_token ` snd ` set store \<longrightarrow> ?new = ?new)"
      using st tok by simp
    then show ?thesis by blast
  qed
qed

text \<open>
  C5 (amended). When the first registration returns an alias, and the record stored
  under that alias has not expired at the time of the second registration, the second
  registration of the same token returns the same alias. When the store held no record
  for the token before the first call, the stored record is the one just created, with
  the \<open>expiresAt\<close> that was passed in.
\<close>

theorem register_again_returns_same_alias:
  assumes "distinct (map fst store)"
      and "[] \<notin> fst ` set store"
      and "registerManageLinkAlias P now1 random1 tok expires store = (Some a, store1)"
      and "map_of store1 a = Some record"
      and "\<not> isExpired P (alias_expiresAt record) now2"
      and "a \<noteq> []"
  shows "fst (registerManageLinkAlias P now2 random2 tok expires2 store1) = Some a
       \<and> (tok \<notin> alias_token ` snd ` set store \<longrightarrow>
            record = \<lparr>alias_token = tok, alias_expiresAt = expires, alias_createdAt = now1\<rparr>)"
proof -
  from register_shape[OF assms(1,2,3)] obtain xs r ys where sh:
    "store1 = xs @ (a, r) # ys" "\<forall>x\<in>set xs. alias_token (snd x) \<noteq> tok"
    "alias_token r = tok" "distinct (map fst store1)" "tok \<noteq> []"
    "tok \<notin> alias_token ` snd ` set store \<longrightarrow>
       r = \<lparr>alias_token = tok, alias_expiresAt = expires, alias_createdAt = now1\<rparr>"
    by blast
  have "(a, r) \<in> set store1" using sh(1) by simp
  then have "map_of store1 a = Some r" using sh(4) by simp
  then have r: "r = record" using assms(4) by simp
  have a: "a \<noteq> []" by (rule assms(6))
  have "snd (snd (scan_existing P now2 tok (xs @ (a, r) # ys) (store1, False))) = Some (fst (a, r))"
    using sh(2,3) assms(5) r by (intro scan_existing_finds) auto
  then obtain records ch where
    "scan_existing P now2 tok store1 (store1, False) = (records, ch, Some a)"
    unfolding sh(1)[symmetric]
    by (cases "scan_existing P now2 tok store1 (store1, False)") auto
  then show ?thesis
    using sh(5,6) a r by (simp add: registerManageLinkAlias_def)
qed

text \<open>
  The theorem at an empty store: the first registration creates \<open>AAAAAAAA\<close>, the
  second, a second later and with other random bytes, returns it again.
\<close>

theorem register_again_returns_same_alias_witness:
  "registerManageLinkAlias reference_platform 1000 zero_draws ''token-123''
       ''1970-01-01T00:00:09.000Z'' []
     = (Some ''AAAAAAAA'',
        [(''AAAAAAAA'', \<lparr>alias_token = ''token-123'',
                         alias_expiresAt = ''1970-01-01T00:00:09.000Z'',
                         alias_createdAt = 1000\<rparr>)])
   \<and> \<not> isExpired reference_platform ''1970-01-01T00:00:09.000Z'' 2000
   \<and> fst (registerManageLinkAlias reference_platform 2000 ff_draws ''token-123''
            ''1970-01-01T00:00:09.000Z''
            [(''AAAAAAAA'', \<lparr>alias_token = ''token-123'',
                             alias_expiresAt = ''1970-01-01T00:00:09.000Z'',
                             alias_createdAt = 1000\<rparr>)]) = Some ''AAAAAAAA''"
proof -
  let ?r = "\<lparr>alias_token = ''token-123'', alias_expiresAt = ''1970-01-01T00:00:09.000Z'',
             alias_createdAt = 1000\<rparr>"
  have h1: "distinct (map fst ([] :: StoredAliasRecords))" by simp
  have h2: "[] \<notin> fst ` set ([] :: StoredAliasRecords)" by simp
  have h3: "registerManageLinkAlias reference_platform 1000 zero_draws ''token-123''
       ''1970-01-01T00:00:09.000Z'' [] = (Some ''AAAAAAAA'', [(''AAAAAAAA'', ?r)])"
    by code_simp
  have h4: "map_of [(''AAAAAAAA'', ?r)] ''AAAAAAAA'' = Some ?r" by simp
  have h5: "\<not> isExpired reference_platform (alias_expiresAt ?r) 2000" by code_simp
  have h6: "''AAAAAAAA'' \<noteq> []" by simp
  show ?thesis
    using register_again_returns_same_alias[OF h1 h2 h3 h4 h5 h6, of ff_draws
        "''1970-01-01T00:00:09.000Z''"] h3 h5
    by simp
qed

text \<open>
  C5 as stated fails: when all five candidates of the first registration collide with
  a live alias, it returns null, and a second registration of the same unexpired token
  returns a fresh alias.
\<close>

theorem register_again_counterexample:
  "fst (registerManageLinkAlias reference_platform 1000 zero_draws ''token-123''
          ''1970-01-01T00:00:09.000Z'' occupied_store) = None
   \<and> fst (registerManageLinkAlias reference_platform 1001 ff_draws ''token-123''
          ''1970-01-01T00:00:09.000Z''
          (snd (registerManageLinkAlias reference_platform 1000 zero_draws ''token-123''
                  ''1970-01-01T00:00:09.000Z'' occupied_store))) = Some ''________''"
  by code_simp

lemma filter_key_absent:
  "k \<notin> fst ` set store \<Longrightarrow> filter (\<lambda>e. fst e = k) store = []"
  by (induction store) auto

lemma filter_key_singleton:
  "distinct (map fst store) \<Longrightarrow> map_of store k = Some v \<Longrightarrow>
   filter (\<lambda>e. fst e = k) store = [(k, v)]"
proof (induction store)
  case Nil
  then show ?case by simp
next
  case (Cons e store)
  show ?case
  proof (cases "fst e = k")
    case True
    then have "e = (k, v)" using Cons.prems(2) by (cases e) simp
    moreover have "k \<notin> fst ` set store" using Cons.prems(1) True by auto
    ultimately show ?thesis by (simp add: filter_key_absent)
  next
    case False
    then have "map_of store k = Some v" using Cons.prems(2) by (cases e) (simp split: if_splits)
    then show ?thesis using Cons False by simp
  qed
qed

text \<open>
  C3 (amended). Once the clock has passed the \<open>expiresAt\<close> of a stored alias,
  \<open>resolveManageLinkAlias\<close> returns null and deletes the record. A purge of the
  store as it was before that call counts the alias exactly once; a purge after that
  call counts one record fewer, since the alias is no longer stored.
\<close>

theorem expired_alias_resolve_and_purge:
  assumes "distinct (map fst store)"
      and "map_of store alias = Some record"
      and "alias \<noteq> []"
      and "Date_parse P (alias_expiresAt record) = Some t"
      and "t < now"
      and "now \<le> later"
  shows "resolveManageLinkAlias P now alias store = (None, delete_key alias store)
       \<and> fst (purgeExpiredManageAliases P later store)
           = Suc (fst (purgeExpiredManageAliases P later (delete_key alias store)))
       \<and> Suc (fst (purgeExpiredManageAliases P later
                      (snd (resolveManageLinkAlias P now alias store))))
           = fst (purgeExpiredManageAliases P later store)"
proof -
  have ex: "isExpired P (alias_expiresAt record) now" "isExpired P (alias_expiresAt record) later"
    using assms(4,5,6) by (simp_all add: isExpired_def)
  have "get_property store alias = Some (Own record)"
    using assms(2) by (simp add: get_property_Own)
  then have res: "resolveManageLinkAlias P now alias store = (None, delete_key alias store)"
    using assms(3) ex(1) by (simp add: resolveManageLinkAlias_def)
  have h: "holds_record alias record store"
    using assms(1,2) by (simp add: holds_record_def)
  have mem: "(alias, record) \<in> set store" using assms(2) by (rule map_of_SomeD)
  have only: "e = (alias, record)" if "e \<in> set store" "fst e = alias" for e
    using holds_record_entry[OF h that] that(2) by (cases e) simp
  have split: "length (filter (entry_expired P later) store)
      = length (filter (entry_expired P later) (filter (\<lambda>e. fst e \<noteq> alias) store))
        + length (filter (entry_expired P later) (filter (\<lambda>e. fst e = alias) store))"
    by (induction store) auto
  have "filter (\<lambda>e. fst e = alias) store = [(alias, record)]"
    using assms(1,2) by (rule filter_key_singleton)
  then have "length (filter (entry_expired P later) store)
      = Suc (length (filter (entry_expired P later) (delete_key alias store)))"
    using split ex(2) by (simp add: delete_key_def)
  then have cnt: "fst (purgeExpiredManageAliases P later store)
           = Suc (fst (purgeExpiredManageAliases P later (delete_key alias store)))"
    by (simp add: purgeExpired_eq[OF assms(1)] purgeExpired_eq[OF distinct_delete_key[OF assms(1)]])
  show ?thesis using res cnt by simp
qed

text \<open>
  The theorem at an alias that expired at 1000 ms, resolved and purged at 1500 ms.
\<close>

theorem expired_alias_resolve_and_purge_witness:
  "Date_parse reference_platform ''1970-01-01T00:00:01.000Z'' = Some 1000
   \<and> (1000 :: int) < 1500
   \<and> resolveManageLinkAlias reference_platform 1500 ''AAAAAAAA'' expiring_store = (None, [])
   \<and> fst (purgeExpiredManageAliases reference_platform 1500 expiring_store) = 1
   \<and> fst (purgeExpiredManageAliases reference_platform 1500
            (snd (resolveManageLinkAlias reference_platform 1500 ''AAAAAAAA'' expiring_store))) = 0"
proof -
  let ?r = "\<lparr>alias_token = ''token-expiring'', alias_expiresAt = ''1970-01-01T00:00:01.000Z'',
             alias_createdAt = 0\<rparr>"
  have h1: "distinct (map fst expiring_store)" by (simp add: expiring_store_def)
  have h2: "map_of expiring_store ''AAAAAAAA'' = Some ?r" by (simp add: expiring_store_def)
  have h3: "''AAAAAAAA'' \<noteq> []" by simp
  have h4: "Date_parse reference_platform (alias_expiresAt ?r) = Some 1000" by code_simp
  have h5: "(1000 :: int) < 1500" by simp
  have h6: "(1500 :: int) \<le> 1500" by simp
  have d: "delete_key ''AAAAAAAA'' expiring_store = []"
    by (simp add: expiring_store_def delete_key_def)
  have z: "fst (purgeExpiredManageAliases reference_platform 1500 []) = 0"
    by (simp add: purgeExpiredManageAliases_def)
  show ?thesis
    using expired_alias_resolve_and_purge[OF h1 h2 h3 h4 h5 h6] h4 d z by simp
qed

text \<open>
  C3 as stated fails: after \<open>resolveManageLinkAlias\<close> has returned null for the one
  expired alias of a store, a purge counts nothing, where the claim has it count that
  alias once.
\<close>

theorem purge_after_resolve_counterexample:
  "fst (resolveManageLinkAlias reference_platform 1500 ''AAAAAAAA'' expiring_store) = None
   \<and> fst (purgeExpiredManageAliases reference_platform 1500
            (snd (resolveManageLinkAlias reference_platform 1500 ''AAAAAAAA'' expiring_store))) = 0"
  by code_simp

section \<open>Properties of the slot engine and the availability resolver\<close>

lemma covered_append: "covered (xs @ ys) = covered xs \<union> covered ys"
  by (simp add: covered_def)

lemma covered_Cons: "covered (x # xs) = {busy_start x..<busy_end x} \<union> covered xs"
  by (simp add: covered_def)

lemma covered_Nil: "covered [] = {}"
  by (simp add: covered_def)

lemma interval_join:
  fixes ps :: int
  assumes "ps \<le> cs" "cs \<le> pe" "pe < ce"
  shows "{ps..<pe} \<union> {cs..<ce} = {ps..<ce}"
  using assms by auto

lemma interval_absorb:
  fixes ps :: int
  assumes "ps \<le> cs" "ce \<le> pe"
  shows "{ps..<pe} \<union> {cs..<ce} = {ps..<pe}"
  using assms by auto

lemma merge_loop_props:
  assumes "sorted (map busy_start (prev # cs))"
      and "successively (\<lambda>a b. busy_end a < busy_start b) (init @ [prev])"
      and "sorted (map busy_start (init @ [prev]))"
  shows "successively (\<lambda>a b. busy_end a < busy_start b) (merge_loop cs (init @ [prev]))
       \<and> sorted (map busy_start (merge_loop cs (init @ [prev])))
       \<and> covered (merge_loop cs (init @ [prev])) = covered (init @ [prev]) \<union> covered cs
       \<and> ((\<forall>b\<in>set (init @ [prev]) \<union> set cs. busy_start b < busy_end b) \<longrightarrow>
            (\<forall>b\<in>set (merge_loop cs (init @ [prev])). busy_start b < busy_end b))"
  using assms
proof (induction cs arbitrary: init prev)
  case Nil
  then show ?case by (simp add: covered_Nil)
next
  case (Cons cur rest)
  have le: "busy_start prev \<le> busy_start cur" using Cons.prems(1) by simp
  have srest: "sorted (map busy_start (cur # rest))" using Cons.prems(1) by simp
  show ?case
  proof (cases "busy_start cur \<le> busy_end prev")
    case True
    show ?thesis
    proof (cases "busy_end cur > busy_end prev")
      case gt: True
      let ?p = "prev\<lparr>busy_end := busy_end cur\<rparr>"
      have step: "merge_loop (cur # rest) (init @ [prev]) = merge_loop rest (init @ [?p])"
        using True gt by simp
      have 1: "sorted (map busy_start (?p # rest))" using Cons.prems(1) by simp
      have 2: "successively (\<lambda>a b. busy_end a < busy_start b) (init @ [?p])"
        using Cons.prems(2) by (simp add: successively_append_iff)
      have 3: "sorted (map busy_start (init @ [?p]))" using Cons.prems(3) by simp
      from Cons.IH[OF 1 2 3] have IH:
        "successively (\<lambda>a b. busy_end a < busy_start b) (merge_loop rest (init @ [?p]))"
        "sorted (map busy_start (merge_loop rest (init @ [?p])))"
        "covered (merge_loop rest (init @ [?p])) = covered (init @ [?p]) \<union> covered rest"
        "(\<forall>b\<in>set (init @ [?p]) \<union> set rest. busy_start b < busy_end b) \<longrightarrow>
            (\<forall>b\<in>set (merge_loop rest (init @ [?p])). busy_start b < busy_end b)"
        by blast+
      have "covered (init @ [?p]) \<union> covered rest
              = covered init \<union> ({busy_start prev..<busy_end prev} \<union> {busy_start cur..<busy_end cur})
                \<union> covered rest"
        by (simp add: covered_append covered_Cons covered_Nil interval_join[OF le True gt])
      also have "\<dots> = covered (init @ [prev]) \<union> covered (cur # rest)"
        by (simp add: covered_append covered_Cons covered_Nil Un_assoc)
      finally have c3: "covered (merge_loop rest (init @ [?p]))
                          = covered (init @ [prev]) \<union> covered (cur # rest)"
        using IH(3) by simp
      have c4: "(\<forall>b\<in>set (init @ [prev]) \<union> set (cur # rest). busy_start b < busy_end b) \<longrightarrow>
            (\<forall>b\<in>set (merge_loop rest (init @ [?p])). busy_start b < busy_end b)"
      proof
        assume a: "\<forall>b\<in>set (init @ [prev]) \<union> set (cur # rest). busy_start b < busy_end b"
        have "cur \<in> set (init @ [prev]) \<union> set (cur # rest)" by simp
        with a have "busy_start cur < busy_end cur" by blast
        then have p: "busy_start ?p < busy_end ?p" using le by simp
        have "b \<in> set (init @ [prev]) \<union> set (cur # rest) \<or> b = ?p"
          if "b \<in> set (init @ [?p]) \<union> set rest" for b
          using that by auto
        with a p have "\<forall>b\<in>set (init @ [?p]) \<union> set rest. busy_start b < busy_end b" by blast
        with IH(4) show "\<forall>b\<in>set (merge_loop rest (init @ [?p])). busy_start b < busy_end b"
          by blast
      qed
      show ?thesis unfolding step using IH(1,2) c3 c4 by blast
    next
      case ngt: False
      have step: "merge_loop (cur # rest) (init @ [prev]) = merge_loop rest (init @ [prev])"
        using True ngt by simp
      have 1: "sorted (map busy_start (prev # rest))" using Cons.prems(1) by simp
      from Cons.IH[OF 1 Cons.prems(2,3)] have IH:
        "successively (\<lambda>a b. busy_end a < busy_start b) (merge_loop rest (init @ [prev]))"
        "sorted (map busy_start (merge_loop rest (init @ [prev])))"
        "covered (merge_loop rest (init @ [prev])) = covered (init @ [prev]) \<union> covered rest"
        "(\<forall>b\<in>set (init @ [prev]) \<union> set rest. busy_start b < busy_end b) \<longrightarrow>
            (\<forall>b\<in>set (merge_loop rest (init @ [prev])). busy_start b < busy_end b)"
        by blast+
      have ce: "busy_end cur \<le> busy_end prev" using ngt by simp
      have "covered (init @ [prev]) \<union> covered (cur # rest)
              = covered init \<union> ({busy_start prev..<busy_end prev} \<union> {busy_start cur..<busy_end cur})
                \<union> covered rest"
        by (simp add: covered_append covered_Cons covered_Nil Un_assoc)
      also have "\<dots> = covered (init @ [prev]) \<union> covered rest"
        by (simp add: covered_append covered_Cons covered_Nil interval_absorb[OF le ce])
      finally have c3: "covered (merge_loop rest (init @ [prev]))
                          = covered (init @ [prev]) \<union> covered (cur # rest)"
        using IH(3) by simp
      have sub: "set (init @ [prev]) \<union> set rest \<subseteq> set (init @ [prev]) \<union> set (cur # rest)"
        by auto
      have c4: "(\<forall>b\<in>set (init @ [prev]) \<union> set (cur # rest). busy_start b < busy_end b) \<longrightarrow>
            (\<forall>b\<in>set (merge_loop rest (init @ [prev])). busy_start b < busy_end b)"
        using IH(4) sub by blast
      show ?thesis unfolding step using IH(1,2) c3 c4 by blast
    qed
  next
    case False
    let ?m = "init @ [prev]"
    have step: "merge_loop (cur # rest) ?m = merge_loop rest (?m @ [cur])"
      using False by simp
    have 2: "successively (\<lambda>a b. busy_end a < busy_start b) (?m @ [cur])"
      using Cons.prems(2) False by (simp add: successively_append_iff)
    have "\<forall>x\<in>set init. busy_start x \<le> busy_start prev"
      using Cons.prems(3) by (simp add: sorted_append)
    then have 3: "sorted (map busy_start (?m @ [cur]))"
      using Cons.prems(3) le by (auto simp: sorted_append)
    from Cons.IH[OF srest 2 3] have IH:
      "successively (\<lambda>a b. busy_end a < busy_start b) (merge_loop rest (?m @ [cur]))"
      "sorted (map busy_start (merge_loop rest (?m @ [cur])))"
      "covered (merge_loop rest (?m @ [cur])) = covered (?m @ [cur]) \<union> covered rest"
      "(\<forall>b\<in>set (?m @ [cur]) \<union> set rest. busy_start b < busy_end b) \<longrightarrow>
          (\<forall>b\<in>set (merge_loop rest (?m @ [cur])). busy_start b < busy_end b)"
      by blast+
    have c3: "covered (merge_loop rest (?m @ [cur])) = covered ?m \<union> covered (cur # rest)"
      using IH(3) by (simp add: covered_append covered_Cons covered_Nil Un_assoc)
    have sub: "set (?m @ [cur]) \<union> set rest \<subseteq> set ?m \<union> set (cur # rest)"
      by auto
    have c4: "(\<forall>b\<in>set ?m \<union> set (cur # rest). busy_start b < busy_end b) \<longrightarrow>
          (\<forall>b\<in>set (merge_loop rest (?m @ [cur])). busy_start b < busy_end b)"
      using IH(4) sub by blast
    show ?thesis unfolding step using IH(1,2) c3 c4 by blast
  qed
qed

lemma mergeBusyIntervals_props:
  "successively (\<lambda>a b. busy_end a < busy_start b) (mergeBusyIntervals intervals)
   \<and> sorted (map busy_start (mergeBusyIntervals intervals))
   \<and> covered (mergeBusyIntervals intervals) = covered intervals
   \<and> ((\<forall>b\<in>set intervals. busy_start b < busy_end b) \<longrightarrow>
        (\<forall>b\<in>set (mergeBusyIntervals intervals). busy_start b < busy_end b))"
proof (cases "intervals = []")
  case True
  then show ?thesis by (simp add: mergeBusyIntervals_def)
next
  case False
  obtain h t where ht: "sort_key busy_start intervals = h # t"
    using False by (cases "sort_key busy_start intervals") (auto dest: arg_cong[where f = length])
  have srt: "sorted (map busy_start (h # t))"
    using sorted_sort_key[of busy_start intervals] ht by simp
  have m: "mergeBusyIntervals intervals = merge_loop t ([] @ [h])"
    using False ht by (simp add: mergeBusyIntervals_def)
  have st: "set (h # t) = set intervals"
    using ht set_sort[of busy_start intervals] by simp
  have "covered ([] @ [h]) \<union> covered t = covered (h # t)"
    by (simp add: covered_Cons covered_Nil covered_append)
  also have "\<dots> = covered intervals"
    unfolding covered_def st ..
  finally have cov: "covered ([] @ [h]) \<union> covered t = covered intervals" .
  have st': "set ([] @ [h]) \<union> set t = set intervals"
    using st by simp
  have s1: "successively (\<lambda>a b. busy_end a < busy_start b) ([] @ [h])" by simp
  have s2: "sorted (map busy_start ([] @ [h]))" by simp
  note P = merge_loop_props[OF srt s1 s2]
  have p1: "successively (\<lambda>a b. busy_end a < busy_start b) (mergeBusyIntervals intervals)"
    unfolding m using P by blast
  have p2: "sorted (map busy_start (mergeBusyIntervals intervals))"
    unfolding m using P by blast
  have p3: "covered (mergeBusyIntervals intervals) = covered intervals"
    unfolding m using P cov by blast
  have p4: "(\<forall>b\<in>set intervals. busy_start b < busy_end b) \<longrightarrow>
        (\<forall>b\<in>set (mergeBusyIntervals intervals). busy_start b < busy_end b)"
    unfolding m using P st' by blast
  show ?thesis using p1 p2 p3 p4 by blast
qed

text \<open>
  The ranges that \<open>collectBusyIntervals\<close> hands to \<open>mergeBusyIntervals\<close> all end after
  they start, so what it returns is sorted, separated and made of such intervals.
\<close>

lemma collectBusyIntervals_props:
  "successively (\<lambda>a b. busy_end a < busy_start b) (collectBusyIntervals P freeBusy)
   \<and> sorted (map busy_start (collectBusyIntervals P freeBusy))
   \<and> (\<forall>b\<in>set (collectBusyIntervals P freeBusy). busy_start b < busy_end b)"
proof -
  let ?valid = "\<lambda>range. case (Date_parse P (fst range), Date_parse P (snd range)) of
              (Some s, Some e) \<Rightarrow>
                if e \<le> s then None else Some \<lparr>busy_start = s, busy_end = e\<rparr>
            | _ \<Rightarrow> None"
  let ?all = "concat (map (\<lambda>calendarBusy. List.map_filter ?valid calendarBusy) (map snd freeBusy))"
  have "busy_start b < busy_end b" if "b \<in> set (List.map_filter ?valid xs)" for b xs
    using that by (auto simp: map_filter_def split: option.splits if_splits)
  then have ok: "\<forall>b\<in>set ?all. busy_start b < busy_end b" by auto
  have c: "collectBusyIntervals P freeBusy = mergeBusyIntervals ?all"
    by (simp add: collectBusyIntervals_def)
  show ?thesis unfolding c using mergeBusyIntervals_props[of ?all] ok by blast
qed

text \<open>
  C6. For busy intervals that each end after they start, \<open>mergeBusyIntervals\<close> returns a
  list sorted by start in which every interval starts strictly after the one before it
  ends, which covers exactly the instants that the given intervals cover, and whose
  intervals again end after they start.
\<close>

theorem mergeBusyIntervals_minimal_sorted:
  assumes "\<forall>b\<in>set intervals. busy_start b < busy_end b"
  shows "sorted (map busy_start (mergeBusyIntervals intervals))
       \<and> successively (\<lambda>a b. busy_end a < busy_start b) (mergeBusyIntervals intervals)
       \<and> covered (mergeBusyIntervals intervals) = covered intervals
       \<and> (\<forall>b\<in>set (mergeBusyIntervals intervals). busy_start b < busy_end b)"
  using mergeBusyIntervals_props[of intervals] assms by blast

text \<open>
  The theorem at four intervals, out of order, two of them overlapping and two adjacent:
  they merge into two.
\<close>

theorem mergeBusyIntervals_minimal_sorted_witness:
  "list_all (\<lambda>b. busy_start b < busy_end b) busy_example
   \<and> mergeBusyIntervals busy_example
       = [\<lparr>busy_start = 5, busy_end = 20\<rparr>, \<lparr>busy_start = 30, busy_end = 40\<rparr>]
   \<and> sorted (map busy_start (mergeBusyIntervals busy_example))
   \<and> successively (\<lambda>a b. busy_end a < busy_start b) (mergeBusyIntervals busy_example)
   \<and> covered (mergeBusyIntervals busy_example) = covered busy_example"
proof -
  have h: "\<forall>b\<in>set busy_example. busy_start b < busy_end b"
    by (simp add: busy_example_def)
  have e: "mergeBusyIntervals busy_example
       = [\<lparr>busy_start = 5, busy_end = 20\<rparr>, \<lparr>busy_start = 30, busy_end = 40\<rparr>]"
    by (simp add: busy_example_def mergeBusyIntervals_def)
  from mergeBusyIntervals_minimal_sorted[OF h] have
    "sorted (map busy_start (mergeBusyIntervals busy_example))
     \<and> successively (\<lambda>a b. busy_end a < busy_start b) (mergeBusyIntervals busy_example)
     \<and> covered (mergeBusyIntervals busy_example) = covered busy_example"
    by blast
  moreover have "list_all (\<lambda>b. busy_start b < busy_end b) busy_example"
    using h by (simp add: list_all_iff)
  ultimately show ?thesis using e by blast
qed

lemma slot_loop_emitted:
  assumes "slot_loop D P duration endUtc minStartUtc busyIntervals cursor slots = Some out"
      and "\<forall>s\<in>set slots. emitted D P duration endUtc minStartUtc busyIntervals s"
  shows "\<forall>s\<in>set out. emitted D P duration endUtc minStartUtc busyIntervals s"
proof -
  define Q where "Q = (\<lambda>(x :: (((((((datelib \<times> platform) \<times> int) \<times> instant) \<times> instant)
                              \<times> BusyInterval list) \<times> instant) \<times> UtcSlot list)) (out :: UtcSlot list).
      case x of (((((((D, P), duration), endUtc), minStartUtc), busyIntervals), cursor), slots) \<Rightarrow>
        (\<forall>s\<in>set slots. emitted D P duration endUtc minStartUtc busyIntervals s) \<longrightarrow>
        (\<forall>s\<in>set out. emitted D P duration endUtc minStartUtc busyIntervals s))"
  have "Q (((((((D, P), duration), endUtc), minStartUtc), busyIntervals), cursor), slots) out"
  proof (rule slot_loop.raw_induct[where Pa = Q, OF _ assms(1)])
    fix f :: "datelib \<Rightarrow> platform \<Rightarrow> int \<Rightarrow> instant \<Rightarrow> instant \<Rightarrow> BusyInterval list \<Rightarrow>
              instant \<Rightarrow> UtcSlot list \<Rightarrow> UtcSlot list option"
      and D :: datelib and P :: platform and duration :: int and endUtc :: instant
      and minStartUtc :: instant and busyIntervals :: "BusyInterval list" and cursor :: instant
      and slots :: "UtcSlot list" and out :: "UtcSlot list"
    let ?next = "(if minStartUtc \<le> cursor
                  then if getHours D (toZonedTime D cursor) \<noteq> 12 \<and>
                          \<not> slotOverlapsBusy cursor (addMinutes cursor duration) busyIntervals
                       then slots @ [\<lparr>slot_start = Date_toISOString P cursor,
                                slot_end = Date_toISOString P (addMinutes cursor duration)\<rparr>]
                       else slots
                  else slots)"
    assume IH: "\<And>D P duration endUtc minStartUtc busyIntervals cursor slots y.
        f D P duration endUtc minStartUtc busyIntervals cursor slots = Some y \<Longrightarrow>
        Q (((((((D, P), duration), endUtc), minStartUtc), busyIntervals), cursor), slots) y"
      and eq: "(if cursor < endUtc
      then if endUtc < addMinutes cursor duration then Some slots
           else f D P duration endUtc minStartUtc busyIntervals (addMinutes cursor duration) ?next
      else Some slots) = Some out"
    have "\<forall>s\<in>set out. emitted D P duration endUtc minStartUtc busyIntervals s"
      if inv: "\<forall>s\<in>set slots. emitted D P duration endUtc minStartUtc busyIntervals s"
    proof (cases "cursor < endUtc \<and> \<not> endUtc < addMinutes cursor duration")
      case False
      then have "out = slots" using eq by (auto split: if_splits)
      then show ?thesis using inv by simp
    next
      case True
      have rec: "f D P duration endUtc minStartUtc busyIntervals (addMinutes cursor duration) ?next
                   = Some out"
        using eq True by simp
      have nxt: "\<forall>s\<in>set ?next. emitted D P duration endUtc minStartUtc busyIntervals s"
      proof (cases "minStartUtc \<le> cursor \<and> getHours D (toZonedTime D cursor) \<noteq> 12 \<and>
                          \<not> slotOverlapsBusy cursor (addMinutes cursor duration) busyIntervals")
        case push: True
        then have "emitted D P duration endUtc minStartUtc busyIntervals
                     \<lparr>slot_start = Date_toISOString P cursor,
                      slot_end = Date_toISOString P (addMinutes cursor duration)\<rparr>"
          unfolding emitted_def using True by (intro exI[of _ cursor]) simp
        then show ?thesis using inv push by simp
      next
        case False
        then have "?next = slots" by auto
        then show ?thesis using inv by simp
      qed
      from IH[OF rec] nxt show ?thesis by (simp add: Q_def)
    qed
    then show "Q (((((((D, P), duration), endUtc), minStartUtc), busyIntervals), cursor), slots) out"
      by (simp add: Q_def)
  qed
  then show ?thesis using assms(2) by (simp add: Q_def)
qed

lemma slot_loop_returns:
  assumes "0 < duration"
  shows "\<exists>out. slot_loop D P duration endUtc minStartUtc busyIntervals cursor slots = Some out"
proof (induction "nat (endUtc - cursor)" arbitrary: cursor slots rule: less_induct)
  case less
  show ?case
  proof (cases "cursor < endUtc \<and> \<not> endUtc < addMinutes cursor duration")
    case False
    then show ?thesis by (subst slot_loop.simps) auto
  next
    case True
    have "nat (endUtc - addMinutes cursor duration) < nat (endUtc - cursor)"
      using True assms by (simp add: addMinutes_def)
    from less[OF this] show ?thesis using True by (subst slot_loop.simps) simp
  qed
qed

lemma buildSlotsForDate_emitted:
  assumes "buildSlotsForDate D P cfg meetingType dateLabel nowUtc busyIntervals = Some slots"
      and "slot \<in> set slots"
  shows "\<exists>cursor. slot_start slot = Date_toISOString P cursor
           \<and> getHours D (toZonedTime D cursor) \<noteq> 12
           \<and> addMinutes nowUtc (minNoticeMinutes cfg) \<le> cursor"
proof (cases "getRuleForDate D cfg dateLabel")
  case None
  then show ?thesis using assms by (simp add: buildSlotsForDate_def)
next
  case (Some rule)
  let ?e = "fromZonedTime D (dateLabel @ ''T'' @ rule_end rule @ '':00'')"
  let ?s = "fromZonedTime D (dateLabel @ ''T'' @ rule_start rule @ '':00'')"
  let ?m = "addMinutes nowUtc (minNoticeMinutes cfg)"
  have loop: "slot_loop D P (durationMinutes meetingType) ?e ?m busyIntervals ?s [] = Some slots"
    using assms(1) Some by (simp add: buildSlotsForDate_def Let_def)
  have "\<forall>s\<in>set []. emitted D P (durationMinutes meetingType) ?e ?m busyIntervals s" by simp
  from slot_loop_emitted[OF loop this] assms(2)
  have "emitted D P (durationMinutes meetingType) ?e ?m busyIntervals slot" by blast
  then show ?thesis unfolding emitted_def by blast
qed

lemma buildSlotsForDate_returns:
  assumes "0 < durationMinutes meetingType"
  shows "\<exists>slots. buildSlotsForDate D P cfg meetingType dateLabel nowUtc busyIntervals = Some slots"
proof (cases "getRuleForDate D cfg dateLabel")
  case None
  then show ?thesis by (simp add: buildSlotsForDate_def)
next
  case (Some rule)
  then show ?thesis
    using slot_loop_returns[OF assms] by (simp add: buildSlotsForDate_def Let_def)
qed

lemma slots_allowed_update:
  assumes "slots_allowed D P cfg nowUtc availability"
      and "buildSlotsForDate D P cfg meetingType label nowUtc busyIntervals = Some slots"
  shows "slots_allowed D P cfg nowUtc (availability(label \<mapsto> slots))"
  unfolding slots_allowed_def
proof (intro allI impI)
  fix dateLabel found slot
  assume a: "(availability(label \<mapsto> slots)) dateLabel = Some found" and b: "slot \<in> set found"
  show "\<exists>cursor. slot_start slot = Date_toISOString P cursor
           \<and> getHours D (toZonedTime D cursor) \<noteq> 12
           \<and> addMinutes nowUtc (minNoticeMinutes cfg) \<le> cursor"
  proof (cases "dateLabel = label")
    case True
    then have "found = slots" using a by simp
    then show ?thesis using buildSlotsForDate_emitted[OF assms(2)] b by blast
  next
    case False
    then have "availability dateLabel = Some found" using a by simp
    then show ?thesis using assms(1) b unfolding slots_allowed_def by blast
  qed
qed

lemma calendar_loop_allowed:
  assumes "calendar_loop D P cfg meetingType startDateUtc nowUtc busyIntervals offsets availability
             = Some result"
      and "slots_allowed D P cfg nowUtc availability"
  shows "slots_allowed D P cfg nowUtc result"
  using assms
proof (induction offsets arbitrary: availability)
  case Nil
  then show ?case by simp
next
  case (Cons offset offsets)
  let ?day = "addDays D startDateUtc offset"
  let ?label = "format_date D (toZonedTime D ?day)"
  let ?busy = "filter (\<lambda>interval. busy_start interval < addDays D ?day 1
                                         \<and> busy_end interval > ?day) busyIntervals"
  obtain slots where sl: "buildSlotsForDate D P cfg meetingType ?label nowUtc ?busy = Some slots"
    using Cons.prems(1) by (cases "buildSlotsForDate D P cfg meetingType ?label nowUtc ?busy")
      (simp_all add: Let_def)
  have rec: "calendar_loop D P cfg meetingType startDateUtc nowUtc busyIntervals offsets
               (availability(?label \<mapsto> slots)) = Some result"
    using Cons.prems(1) sl by (simp add: Let_def)
  show ?case
    by (rule Cons.IH[OF rec slots_allowed_update[OF Cons.prems(2) sl]])
qed

lemma calendar_loop_returns:
  assumes "0 < durationMinutes meetingType"
  shows "\<exists>result. calendar_loop D P cfg meetingType startDateUtc nowUtc busyIntervals offsets
                     availability = Some result"
proof (induction offsets arbitrary: availability)
  case Nil
  then show ?case by simp
next
  case (Cons offset offsets)
  let ?day = "addDays D startDateUtc offset"
  let ?label = "format_date D (toZonedTime D ?day)"
  let ?busy = "filter (\<lambda>interval. busy_start interval < addDays D ?day 1
                                         \<and> busy_end interval > ?day) busyIntervals"
  obtain slots where sl: "buildSlotsForDate D P cfg meetingType ?label nowUtc ?busy = Some slots"
    using buildSlotsForDate_returns[OF assms] by blast
  obtain result where r:
    "calendar_loop D P cfg meetingType startDateUtc nowUtc busyIntervals offsets
       (availability(?label \<mapsto> slots)) = Some result"
    using Cons.IH by blast
  have "calendar_loop D P cfg meetingType startDateUtc nowUtc busyIntervals (offset # offsets)
          availability = Some result"
    using sl r by (simp add: Let_def)
  then show ?case by blast
qed

lemma buildAvailabilityCalendar_returns:
  "0 < durationMinutes meetingType \<Longrightarrow>
   \<exists>availability. buildAvailabilityCalendar D P cfg meetingType startDateUtc nowUtc busyIntervals
                     = Some availability"
  unfolding buildAvailabilityCalendar_def by (rule calendar_loop_returns)

lemma buildAvailabilityCalendar_allowed:
  assumes "buildAvailabilityCalendar D P cfg meetingType startDateUtc nowUtc busyIntervals
             = Some availability"
  shows "slots_allowed D P cfg nowUtc availability"
proof -
  have "slots_allowed D P cfg nowUtc Map.empty" by (simp add: slots_allowed_def)
  then show ?thesis
    using assms calendar_loop_allowed unfolding buildAvailabilityCalendar_def by blast
qed

text \<open>
  C2. A slot that the slot engine emits, for any date of the look-ahead window, renders
  a start instant whose hour of day in the host time zone is not 12 and which is not
  before \<open>now + minNoticeMinutes\<close>. The engine returns whenever the duration of the
  meeting type is positive.
\<close>

theorem slot_engine_never_lunch_never_early:
  "(0 < durationMinutes meetingType \<longrightarrow>
      (\<exists>availability. buildAvailabilityCalendar D P cfg meetingType startDateUtc nowUtc
                         busyIntervals = Some availability))
   \<and> (\<forall>availability dateLabel slots slot.
        buildAvailabilityCalendar D P cfg meetingType startDateUtc nowUtc busyIntervals
          = Some availability \<longrightarrow>
        availability dateLabel = Some slots \<longrightarrow> slot \<in> set slots \<longrightarrow>
        (\<exists>cursor. slot_start slot = Date_toISOString P cursor
           \<and> getHours D (toZonedTime D cursor) \<noteq> 12
           \<and> addMinutes nowUtc (minNoticeMinutes cfg) \<le> cursor))"
proof (intro conjI impI allI)
  assume "0 < durationMinutes meetingType"
  then show "\<exists>availability. buildAvailabilityCalendar D P cfg meetingType startDateUtc nowUtc
                         busyIntervals = Some availability"
    by (rule buildAvailabilityCalendar_returns)
next
  fix availability dateLabel slots slot
  assume "buildAvailabilityCalendar D P cfg meetingType startDateUtc nowUtc busyIntervals
          = Some availability"
    and "availability dateLabel = Some slots" and "slot \<in> set slots"
  then show "\<exists>cursor. slot_start slot = Date_toISOString P cursor
           \<and> getHours D (toZonedTime D cursor) \<noteq> 12
           \<and> addMinutes nowUtc (minNoticeMinutes cfg) \<le> cursor"
    using buildAvailabilityCalendar_allowed unfolding slots_allowed_def by blast
qed

text \<open>
  The theorem on Wednesday 1 January 2025 at 08:40 UTC: with a lead time of 30 minutes
  the slot of 09:00 is left out, and so are the slots of 12:00 and 12:30.
\<close>

theorem slot_engine_never_lunch_never_early_witness:
  "0 < durationMinutes intro_30
   \<and> map_option (\<lambda>availability. availability ''2025-01-01'')
        (buildAvailabilityCalendar reference_datelib reference_platform example_config intro_30
           1735689600000 1735720800000 [])
      = Some (Some
          [\<lparr>slot_start = ''2025-01-01T09:30:00.000Z'', slot_end = ''2025-01-01T10:00:00.000Z''\<rparr>,
           \<lparr>slot_start = ''2025-01-01T10:00:00.000Z'', slot_end = ''2025-01-01T10:30:00.000Z''\<rparr>,
           \<lparr>slot_start = ''2025-01-01T10:30:00.000Z'', slot_end = ''2025-01-01T11:00:00.000Z''\<rparr>,
           \<lparr>slot_start = ''2025-01-01T11:00:00.000Z'', slot_end = ''2025-01-01T11:30:00.000Z''\<rparr>,
           \<lparr>slot_start = ''2025-01-01T11:30:00.000Z'', slot_end = ''2025-01-01T12:00:00.000Z''\<rparr>])
   \<and> (\<exists>cursor. ''2025-01-01T09:30:00.000Z'' = Date_toISOString reference_platform cursor
          \<and> getHours reference_datelib (toZonedTime reference_datelib cursor) \<noteq> 12
          \<and> addMinutes 1735720800000 (minNoticeMinutes example_config) \<le> cursor)"
proof -
  let ?slots = "[\<lparr>slot_start = ''2025-01-01T09:30:00.000Z'', slot_end = ''2025-01-01T10:00:00.000Z''\<rparr>,
           \<lparr>slot_start = ''2025-01-01T10:00:00.000Z'', slot_end = ''2025-01-01T10:30:00.000Z''\<rparr>,
           \<lparr>slot_start = ''2025-01-01T10:30:00.000Z'', slot_end = ''2025-01-01T11:00:00.000Z''\<rparr>,
           \<lparr>slot_start = ''2025-01-01T11:00:00.000Z'', slot_end = ''2025-01-01T11:30:00.000Z''\<rparr>,
           \<lparr>slot_start = ''2025-01-01T11:30:00.000Z'', slot_end = ''2025-01-01T12:00:00.000Z''\<rparr>]"
  let ?first = "\<lparr>slot_start = ''2025-01-01T09:30:00.000Z'', slot_end = ''2025-01-01T10:00:00.000Z''\<rparr>"
  have pos: "0 < durationMinutes intro_30" by (simp add: intro_30_def)
  have ev: "map_option (\<lambda>availability. availability ''2025-01-01'')
        (buildAvailabilityCalendar reference_datelib reference_platform example_config intro_30
           1735689600000 1735720800000 []) = Some (Some ?slots)"
    by code_simp
  then obtain availability where av:
    "buildAvailabilityCalendar reference_datelib reference_platform example_config intro_30
           1735689600000 1735720800000 [] = Some availability"
    "availability ''2025-01-01'' = Some ?slots"
    by auto
  have mem: "?first \<in> set ?slots" by simp
  from slot_engine_never_lunch_never_early[of intro_30 reference_datelib reference_platform
         example_config 1735689600000 1735720800000 "[]"] av mem
  have "\<exists>cursor. slot_start ?first = Date_toISOString reference_platform cursor
          \<and> getHours reference_datelib (toZonedTime reference_datelib cursor) \<noteq> 12
          \<and> addMinutes 1735720800000 (minNoticeMinutes example_config) \<le> cursor"
    by blast
  then show ?thesis using pos ev by simp
qed










section \<open>Properties of the link signer\<close>

lemma split_on_nonempty: "split_on sep str \<noteq> []"
  by (induction str) (auto split: list.splits)

lemma split_on_no_sep: "sep \<notin> set str \<Longrightarrow> split_on sep str = [str]"
  by (induction str) auto

lemma split_on_append:
  "sep \<notin> set first \<Longrightarrow> split_on sep (first @ sep # rest) = first # split_on sep rest"
  by (induction first) auto

lemma split_two:
  assumes "sep \<notin> set first" "sep \<notin> set second"
  shows "element (split_on sep (first @ sep # second)) 0 = Some first"
    and "element (split_on sep (first @ sep # second)) 1 = Some second"
  using assms by (simp_all add: split_on_append split_on_no_sep)

text \<open>What a token signed on a platform with lossless codecs looks like to the verifier.\<close>

lemma signed_token:
  fixes P :: platform and payload :: SignedLinkPayload and secret :: string
  assumes "lossless_codecs P" and "secret \<noteq> []"
  defines "payloadEncoded \<equiv> base64UrlEncode P (Buffer_fromUtf8 P (JSON_stringify P payload))"
  defines "signatureEncoded \<equiv> base64UrlEncode P (Hmac_sha256 P secret payloadEncoded)"
  defines "tok \<equiv> payloadEncoded @ ''.'' @ signatureEncoded"
  shows "signLinkPayload P (Some secret) payload = Inr tok"
    and "tok \<noteq> []"
    and "element (split_on CHR ''.'' tok) 0 = Some payloadEncoded"
    and "element (split_on CHR ''.'' tok) 1 = Some signatureEncoded"
    and "payloadEncoded \<noteq> []" and "signatureEncoded \<noteq> []"
    and "base64UrlDecode P signatureEncoded = Hmac_sha256 P secret payloadEncoded"
    and "decodeSignedLinkPayload P tok = Some payload"
proof -
  have c: "\<And>buffer. Buffer_fromBase64url P (Buffer_toBase64url P buffer) = buffer"
       "\<And>buffer. CHR ''.'' \<notin> set (Buffer_toBase64url P buffer)"
       "\<And>buffer. buffer \<noteq> [] \<Longrightarrow> Buffer_toBase64url P buffer \<noteq> []"
       "\<And>payload. JSON_parse P (Buffer_toUtf8 P (Buffer_fromUtf8 P (JSON_stringify P payload)))
                      = Some payload"
       "\<And>payload. Buffer_fromUtf8 P (JSON_stringify P payload) \<noteq> []"
       "\<And>secret data. Hmac_sha256 P secret data \<noteq> []"
    using assms(1) unfolding lossless_codecs_def by blast+
  show s: "signLinkPayload P (Some secret) payload = Inr tok"
    using assms(2)
    by (simp add: signLinkPayload_def getSigningSecret_def Let_def tok_def payloadEncoded_def
        signatureEncoded_def)
  show "tok \<noteq> []" by (simp add: tok_def)
  have nd: "CHR ''.'' \<notin> set payloadEncoded" "CHR ''.'' \<notin> set signatureEncoded"
    by (simp_all add: payloadEncoded_def signatureEncoded_def base64UrlEncode_def c(2))
  have t: "tok = payloadEncoded @ CHR ''.'' # signatureEncoded" by (simp add: tok_def)
  show e0: "element (split_on CHR ''.'' tok) 0 = Some payloadEncoded"
    unfolding t by (rule split_two(1)[OF nd])
  show "element (split_on CHR ''.'' tok) 1 = Some signatureEncoded"
    unfolding t by (rule split_two(2)[OF nd])
  show pe: "payloadEncoded \<noteq> []"
    by (simp add: payloadEncoded_def base64UrlEncode_def c(3) c(5))
  show "signatureEncoded \<noteq> []"
    by (simp add: signatureEncoded_def base64UrlEncode_def c(3) c(6))
  show "base64UrlDecode P signatureEncoded = Hmac_sha256 P secret payloadEncoded"
    by (simp add: signatureEncoded_def base64UrlEncode_def base64UrlDecode_def c(1))
  have "base64UrlDecode P payloadEncoded = Buffer_fromUtf8 P (JSON_stringify P payload)"
    by (simp add: payloadEncoded_def base64UrlEncode_def base64UrlDecode_def c(1))
  then show "decodeSignedLinkPayload P tok = Some payload"
    using e0 pe \<open>tok \<noteq> []\<close> by (simp add: decodeSignedLinkPayload_def Let_def c(4))
qed

text \<open>After the signature check, \<open>verifySignedLink\<close> decides on the decoded payload.\<close>

lemma verify_signed:
  assumes "lossless_codecs P" and "secret \<noteq> []"
      and "signLinkPayload P (Some secret) payload = Inr tok"
  shows "verifySignedLink P (Some secret) now tok =
           (case Date_parse P (expiresAt payload) of
              None \<Rightarrow> Inr None
            | Some expires \<Rightarrow>
                if expires < now then Inr None
                else if action payload = [] \<or> meetingTypeId payload = []
                        \<or> eventId payload = [] \<or> guestEmail payload = []
                then Inr None
                else Inr (Some payload))"
proof -
  note st = signed_token[OF assms(1,2), of payload]
  have tok: "tok = base64UrlEncode P (Buffer_fromUtf8 P (JSON_stringify P payload)) @ ''.'' @
         base64UrlEncode P (Hmac_sha256 P secret
           (base64UrlEncode P (Buffer_fromUtf8 P (JSON_stringify P payload))))"
    using st(1) assms(3) by simp
  show ?thesis
    unfolding verifySignedLink_def
    using st(2-8) assms(2) unfolding tok[symmetric]
    by (simp add: getSigningSecret_def Let_def timingSafeEqual_def)
qed

lemma verify_expired:
  assumes "decodeSignedLinkPayload P tok = Some payload"
      and "Date_parse P (expiresAt payload) = Some expires" and "expires < now"
      and "secret \<noteq> []"
  shows "verifySignedLink P (Some secret) now tok = Inr None"
  using assms unfolding verifySignedLink_def
  by (auto simp: getSigningSecret_def Let_def split: option.splits prod.splits)

text \<open>
  C1. On a platform with lossless codecs and with a signing secret configured, a payload
  whose four required fields are present (not empty) and whose \<open>expiresAt\<close> parses to
  an instant after the current time is signed into a token, and \<open>verifySignedLink\<close> on
  that token returns the payload.
\<close>

theorem sign_verify_roundtrip:
  assumes "lossless_codecs P"
      and "secret \<noteq> []"
      and "action payload \<noteq> []" and "meetingTypeId payload \<noteq> []"
      and "eventId payload \<noteq> []" and "guestEmail payload \<noteq> []"
      and "Date_parse P (expiresAt payload) = Some expires"
      and "now < expires"
  shows "\<exists>tok. signLinkPayload P (Some secret) payload = Inr tok
           \<and> verifySignedLink P (Some secret) now tok = Inr (Some payload)"
proof -
  obtain tok where s: "signLinkPayload P (Some secret) payload = Inr tok"
    using signed_token(1)[OF assms(1,2)] by blast
  have "verifySignedLink P (Some secret) now tok = Inr (Some payload)"
    using verify_signed[OF assms(1,2) s, of now] assms(3-8) by simp
  with s show ?thesis by blast
qed

text \<open>
  C4. For the token signed from a payload whose \<open>expiresAt\<close> parses to an instant
  before the current time, \<open>decodeSignedLinkPayload\<close> returns the payload and
  \<open>verifySignedLink\<close> returns null.
\<close>

theorem expired_link_decodes_but_does_not_verify:
  assumes "lossless_codecs P"
      and "secret \<noteq> []"
      and "Date_parse P (expiresAt payload) = Some expires"
      and "expires < now"
  shows "\<exists>tok. signLinkPayload P (Some secret) payload = Inr tok
           \<and> decodeSignedLinkPayload P tok = Some payload
           \<and> verifySignedLink P (Some secret) now tok = Inr None"
proof -
  note st = signed_token[OF assms(1,2), of payload]
  obtain tok where s: "signLinkPayload P (Some secret) payload = Inr tok"
    using st(1) by blast
  have d: "decodeSignedLinkPayload P tok = Some payload"
    using st(1,8) s by simp
  have "verifySignedLink P (Some secret) now tok = Inr None"
    by (rule verify_expired[OF d assms(3,4,2)])
  with s d show ?thesis by blast
qed

lemma generateSignedLink_expiresAt:
  "generateSignedLink P env_secret now act payload ttlMs = Inr link \<Longrightarrow>
   link_expiresAt link = Date_toISOString P (now + ttlMs)"
  by (auto simp: generateSignedLink_def Let_def split: sum.splits)

lemma generateSignedLink_returns:
  "secret \<noteq> [] \<Longrightarrow> \<exists>link. generateSignedLink P (Some secret) now act payload ttlMs = Inr link"
  by (simp add: generateSignedLink_def signLinkPayload_def getSigningSecret_def Let_def)

text \<open>
  Each of the three links carries the expiry computed from the clock reading of its own
  \<open>generateSignedLink\<close> call.
\<close>

lemma createManagementLinks_expiresAt:
  assumes "createManagementLinks P env_secret now_cancel now_reschedule now_manage payload ttlMs
             = Inr links"
  shows "link_expiresAt (cancel links) = Date_toISOString P (now_cancel + ttlMs)
       \<and> link_expiresAt (reschedule links) = Date_toISOString P (now_reschedule + ttlMs)
       \<and> link_expiresAt (manage links) = Date_toISOString P (now_manage + ttlMs)"
  using assms unfolding createManagementLinks_def
  by (auto split: sum.splits dest: generateSignedLink_expiresAt)

lemma createManagementLinks_returns:
  assumes "secret \<noteq> []"
  shows "\<exists>links. createManagementLinks P (Some secret) now_cancel now_reschedule now_manage
                    payload ttlMs = Inr links"
proof -
  obtain c r m where
    "generateSignedLink P (Some secret) now_cancel ''cancel'' payload ttlMs = Inr c"
    "generateSignedLink P (Some secret) now_reschedule ''reschedule'' payload ttlMs = Inr r"
    "generateSignedLink P (Some secret) now_manage ''manage'' payload ttlMs = Inr m"
    using generateSignedLink_returns[OF assms] by metis
  then show ?thesis by (simp add: createManagementLinks_def)
qed

text \<open>When the clock does not advance between the three calls, the expiries agree.\<close>

lemma createManagementLinks_same_instant:
  assumes "createManagementLinks P env_secret now now now payload ttlMs = Inr links"
  shows "link_expiresAt (cancel links) = link_expiresAt (reschedule links)
       \<and> link_expiresAt (reschedule links) = link_expiresAt (manage links)"
  using createManagementLinks_expiresAt[OF assms] by simp

section \<open>Properties of the reschedule commit\<close>





section \<open>Properties of the reference platform\<close>

lemma of_char_range: "0 \<le> (of_char c :: int) \<and> (of_char c :: int) < 256"
proof -
  have "(of_char c :: int) = int (of_char c)" by (simp add: of_nat_of_char)
  moreover have "(of_char c :: nat) < 256" by simp
  ultimately show ?thesis by linarith
qed

lemma b64_value_char:
  assumes "0 \<le> i" "i < 64"
  shows "b64_value (b64_char i) = Some i"
proof -
  consider "i < 26" | "26 \<le> i" "i < 52" | "52 \<le> i" "i < 62" | "i = 62" | "i = 63"
    using assms by linarith
  then show ?thesis
  proof cases
    case 1
    then have "(of_char (b64_char i) :: int) = 65 + i" using assms by (simp add: b64_char_def)
    then show ?thesis using 1 assms by (simp add: b64_value_def)
  next
    case 2
    then have "(of_char (b64_char i) :: int) = 71 + i" using assms by (simp add: b64_char_def)
    then show ?thesis using 2 assms by (simp add: b64_value_def)
  next
    case 3
    then have "(of_char (b64_char i) :: int) = i - 4" using assms by (simp add: b64_char_def)
    then show ?thesis using 3 assms by (simp add: b64_value_def)
  next
    case 4
    then show ?thesis by (simp add: b64_char_def b64_value_def)
  next
    case 5
    then show ?thesis by (simp add: b64_char_def b64_value_def)
  qed
qed

lemma b64_char_not_dot:
  assumes "0 \<le> i" "i < 64"
  shows "b64_char i \<noteq> CHR ''.''"
proof
  assume "b64_char i = CHR ''.''"
  then have "b64_value (b64_char i) = b64_value CHR ''.''" by simp
  then show False using b64_value_char[OF assms] by (simp add: b64_value_def)
qed

lemma sextets_range: "x \<in> set (sextets buffer) \<Longrightarrow> 0 \<le> x \<and> x < 64"
proof (induction buffer arbitrary: x rule: sextets.induct)
  case 1
  then show ?case by simp
next
  case (2 a)
  then show ?case using of_char_range[of a] by (auto simp: Let_def)
next
  case (3 a b)
  then show ?case using of_char_range[of a] of_char_range[of b] by (auto simp: Let_def)
next
  case (4 a b c rest)
  then show ?case
    using of_char_range[of a] of_char_range[of b] of_char_range[of c] by (auto simp: Let_def)
qed

lemma div_mod_combine:
  fixes a b k :: int
  assumes "0 \<le> b" "b < k"
  shows "(a * k + b) div k = a" and "(a * k + b) mod k = b"
  using assms by (simp_all add: div_pos_pos_trivial)

lemma div_range:
  fixes y :: int
  assumes "0 \<le> y" "y < 256"
  shows "0 \<le> y div 16 \<and> y div 16 < 16" and "0 \<le> y div 64 \<and> y div 64 < 4"
  using assms by presburger+

lemma triple_bytes:
  fixes x y z :: int
  assumes "0 \<le> x \<and> x < 256" "0 \<le> y \<and> y < 256" "0 \<le> z \<and> z < 256"
  shows "x div 4 * 4 + (x mod 4 * 16 + y div 16) div 16 = x"
    and "(x mod 4 * 16 + y div 16) mod 16 * 16 + (y mod 16 * 4 + z div 64) div 4 = y"
    and "(y mod 16 * 4 + z div 64) mod 4 * 64 + z mod 64 = z"
proof -
  have y: "0 \<le> y div 16" "y div 16 < 16" using div_range(1)[of y] assms(2) by simp_all
  have z: "0 \<le> z div 64" "z div 64 < 4" using div_range(2)[of z] assms(3) by simp_all
  show "x div 4 * 4 + (x mod 4 * 16 + y div 16) div 16 = x"
    by (simp only: div_mod_combine(1)[OF y] div_mult_mod_eq)
  show "(x mod 4 * 16 + y div 16) mod 16 * 16 + (y mod 16 * 4 + z div 64) div 4 = y"
    by (simp only: div_mod_combine(2)[OF y] div_mod_combine(1)[OF z] div_mult_mod_eq)
  show "(y mod 16 * 4 + z div 64) mod 4 * 64 + z mod 64 = z"
    by (simp only: div_mod_combine(2)[OF z] div_mult_mod_eq)
qed

lemma pair_bytes:
  fixes x y :: int
  assumes "0 \<le> x \<and> x < 256" "0 \<le> y \<and> y < 256"
  shows "x div 4 * 4 + (x mod 4 * 16 + y div 16) div 16 = x"
    and "(x mod 4 * 16 + y div 16) mod 16 * 16 + (y mod 16 * 4) div 4 = y"
proof -
  have y: "0 \<le> y div 16" "y div 16 < 16" using div_range(1)[of y] assms(2) by simp_all
  show "x div 4 * 4 + (x mod 4 * 16 + y div 16) div 16 = x"
    by (simp only: div_mod_combine(1)[OF y] div_mult_mod_eq)
  have "(y mod 16 * 4) div 4 = y mod 16" by simp
  then show "(x mod 4 * 16 + y div 16) mod 16 * 16 + (y mod 16 * 4) div 4 = y"
    by (simp only: div_mod_combine(2)[OF y] div_mult_mod_eq)
qed

lemma single_byte:
  fixes x :: int
  shows "x div 4 * 4 + (x mod 4 * 16) div 16 = x"
proof -
  have "(x mod 4 * 16) div 16 = x mod 4" by simp
  then show ?thesis by (simp only: div_mult_mod_eq)
qed

lemma octets_sextets: "octets (sextets buffer) = buffer"
proof (induction buffer rule: sextets.induct)
  case 1
  then show ?case by simp
next
  case (2 a)
  show ?case
    by (simp only: sextets.simps octets.simps Let_def single_byte char_of_char)
next
  case (3 a b)
  show ?case
    by (simp only: sextets.simps octets.simps Let_def char_of_char
        pair_bytes[OF of_char_range[of a] of_char_range[of b]])
next
  case (4 a b c rest)
  show ?case
    by (simp only: sextets.simps octets.simps Let_def char_of_char append.simps 4
        triple_bytes[OF of_char_range[of a] of_char_range[of b] of_char_range[of c]])
qed

lemma map_filter_b64:
  "(\<forall>x\<in>set xs. 0 \<le> x \<and> x < 64) \<Longrightarrow> List.map_filter b64_value (map b64_char xs) = xs"
  by (induction xs) (simp_all add: map_filter_simps b64_value_char)

lemma base64url_roundtrip: "base64url_decode (base64url_encode buffer) = buffer"
  unfolding base64url_decode_def base64url_encode_def
  using map_filter_b64[of "sextets buffer"] sextets_range[of _ buffer]
  by (simp add: octets_sextets)

lemma base64url_no_dot: "CHR ''.'' \<notin> set (base64url_encode buffer)"
  unfolding base64url_encode_def using sextets_range[of _ buffer] b64_char_not_dot by force

lemma base64url_nonempty: "buffer \<noteq> [] \<Longrightarrow> base64url_encode buffer \<noteq> []"
  unfolding base64url_encode_def by (cases buffer rule: sextets.cases) (simp_all add: Let_def)

lemma char_eq_of_code:
  "(of_char c :: int) = of_char d \<Longrightarrow> c = d"
  by simp

lemma hex_value_char:
  assumes "0 \<le> d" "d < 16"
  shows "hex_value (hex_char d) = Some d"
proof (cases "d < 10")
  case True
  then have "(of_char (hex_char d) :: int) = 48 + d" using assms by (simp add: hex_char_def)
  then show ?thesis using True assms by (simp add: hex_value_def)
next
  case False
  then have "(of_char (hex_char d) :: int) = 87 + d" using assms by (simp add: hex_char_def)
  then show ?thesis using False assms by (simp add: hex_value_def)
qed

lemma unquote_escape:
  "unquote (escape_char c @ rest) = map_option (\<lambda>(s, r). (c # s, r)) (unquote rest)"
proof -
  let ?n = "of_char c :: int"
  have r: "0 \<le> ?n" "?n < 256" using of_char_range[of c] by simp_all
  consider (dq) "c = CHR 0x22" | (bsl) "c = CHR 0x5C"
    | (c8) "?n = 8" | (c9) "?n = 9" | (c10) "?n = 10" | (c12) "?n = 12" | (c13) "?n = 13"
    | (ctl) "?n < 32" "?n \<noteq> 8" "?n \<noteq> 9" "?n \<noteq> 10" "?n \<noteq> 12" "?n \<noteq> 13"
    | (plain) "32 \<le> ?n" "c \<noteq> CHR 0x22" "c \<noteq> CHR 0x5C"
    by linarith
  then show ?thesis
  proof cases
    case dq
    then show ?thesis by (simp add: escape_char_def unescape_def)
  next
    case bsl
    then show ?thesis by (simp add: escape_char_def unescape_def)
  next
    case c8
    then have c: "c = CHR 0x08" by (intro char_eq_of_code) simp
    show ?thesis unfolding c by (simp add: escape_char_def unescape_def)
  next
    case c9
    then have c: "c = CHR 0x09" by (intro char_eq_of_code) simp
    show ?thesis unfolding c by (simp add: escape_char_def unescape_def)
  next
    case c10
    then have c: "c = CHR 0x0A" by (intro char_eq_of_code) simp
    show ?thesis unfolding c by (simp add: escape_char_def unescape_def)
  next
    case c12
    then have c: "c = CHR 0x0C" by (intro char_eq_of_code) simp
    show ?thesis unfolding c by (simp add: escape_char_def unescape_def)
  next
    case c13
    then have c: "c = CHR 0x0D" by (intro char_eq_of_code) simp
    show ?thesis unfolding c by (simp add: escape_char_def unescape_def)
  next
    case ctl
    have nq: "c \<noteq> CHR 0x22" "c \<noteq> CHR 0x5C" using ctl(1) by auto
    have e: "escape_char c = [CHR 0x5C, CHR ''u'', CHR ''0'', CHR ''0'',
                              hex_char (?n div 16), hex_char (?n mod 16)]"
      using ctl nq by (simp add: escape_char_def Let_def)
    have hi: "hex_value (hex_char (?n div 16)) = Some (?n div 16)"
      using r ctl(1) by (intro hex_value_char) simp_all
    have lo: "hex_value (hex_char (?n mod 16)) = Some (?n mod 16)"
      by (intro hex_value_char) simp_all
    have z: "hex_value CHR ''0'' = Some 0" by (simp add: hex_value_def)
    have v: "16 * (?n div 16) + ?n mod 16 = ?n" by simp
    show ?thesis
      unfolding e using ctl(1) by (simp add: hi lo z v)
  next
    case plain
    then show ?thesis by (simp add: escape_char_def Let_def)
  qed
qed

lemma unquote_escaped:
  "unquote (concat (map escape_char s) @ CHR 0x22 # rest) = Some (s, rest)"
  by (induction s) (simp_all add: unquote_escape)

lemma parse_member_step:
  "parse_members (Suc fuel) (member_text (k, v) @ c # s5) =
     (if c = CHR ''}'' \<and> s5 = [] then Some [(k, v)]
      else if c = CHR '','' then map_option ((#) (k, v)) (parse_members fuel s5)
      else None)"
proof -
  have shape: "member_text (k, v) @ c # s5
      = CHR 0x22 # (concat (map escape_char k) @ CHR 0x22 #
          (CHR '':'' # CHR 0x22 # (concat (map escape_char v) @ CHR 0x22 # (c # s5))))"
    by (simp add: member_text_def quote_def)
  show ?thesis
    unfolding shape by (simp add: unquote_escaped del: parse_members.simps(1))
qed

lemma parse_members_join:
  "ms \<noteq> [] \<Longrightarrow> length ms \<le> fuel \<Longrightarrow>
   parse_members fuel (join_members ms @ ''}'') = Some ms"
proof (induction ms arbitrary: fuel rule: join_members.induct)
  case 1
  then show ?case by simp
next
  case (2 m)
  then obtain f where f: "fuel = Suc f" by (cases fuel) auto
  have "join_members [m] @ ''}'' = member_text (fst m, snd m) @ CHR ''}'' # []" by simp
  then show ?case unfolding f by (simp only: parse_member_step) simp
next
  case (3 m m' ms)
  then obtain f where f: "fuel = Suc f" by (cases fuel) auto
  have le: "length (m' # ms) \<le> f" using 3(3) f by simp
  have "join_members (m # m' # ms) @ ''}''
          = member_text (fst m, snd m) @ CHR '','' # (join_members (m' # ms) @ ''}'')"
    by simp
  then show ?case unfolding f using 3(1)[OF _ le] by (simp only: parse_member_step) simp
qed

lemma length_member_text: "0 < length (member_text m)"
  by (simp add: member_text_def quote_def)

lemma length_join_members: "length ms \<le> length (join_members ms)"
proof (induction ms rule: join_members.induct)
  case 1
  then show ?case by simp
next
  case (2 m)
  then show ?case using length_member_text[of m] by (simp add: Suc_le_eq)
next
  case (3 m m' ms)
  then show ?case by simp
qed

lemma parse_object_members:
  assumes "ms \<noteq> []"
  shows "parse_object (CHR ''{'' # join_members ms @ ''}'') = Some ms"
proof -
  have ne: "join_members ms @ ''}'' \<noteq> ''}''"
    using assms length_join_members[of ms] by (cases ms) auto
  have "length ms \<le> length (join_members ms @ ''}'')"
    using length_join_members[of ms] by simp
  from parse_members_join[OF assms this] show ?thesis
    using ne by (simp add: parse_object_def)
qed

lemma payload_of_members_payload:
  "payload_of_members (rev (payload_members p)) = p"
  by (cases p; cases "guestName p"; cases "calendarId p"; cases "slotStart p"; cases "slotEnd p")
     (simp_all add: payload_of_members_def payload_members_def required_member_def
        optional_member_def)

lemma reference_JSON_roundtrip:
  "reference_JSON_parse (reference_JSON_stringify p) = Some p"
proof -
  have "payload_members p \<noteq> []" by (simp add: payload_members_def)
  then show ?thesis
    by (simp add: reference_JSON_parse_def reference_JSON_stringify_def
        parse_object_members payload_of_members_payload)
qed

text \<open>The reference platform has lossless codecs.\<close>

lemma reference_platform_lossless: "lossless_codecs reference_platform"
proof -
  have 1: "\<forall>buffer. Buffer_fromBase64url reference_platform
                      (Buffer_toBase64url reference_platform buffer) = buffer"
    by (simp add: reference_platform_def base64url_roundtrip)
  have 2: "\<forall>buffer. CHR ''.'' \<notin> set (Buffer_toBase64url reference_platform buffer)"
    by (simp add: reference_platform_def base64url_no_dot)
  have 3: "\<forall>buffer. buffer \<noteq> [] \<longrightarrow> Buffer_toBase64url reference_platform buffer \<noteq> []"
    by (simp add: reference_platform_def base64url_nonempty)
  have 4: "\<forall>payload. JSON_parse reference_platform (Buffer_toUtf8 reference_platform
             (Buffer_fromUtf8 reference_platform (JSON_stringify reference_platform payload)))
           = Some payload"
    by (simp add: reference_platform_def reference_JSON_roundtrip)
  have 5: "\<forall>payload. Buffer_fromUtf8 reference_platform
                       (JSON_stringify reference_platform payload) \<noteq> []"
    by (simp add: reference_platform_def reference_JSON_stringify_def)
  have "keyed_bytes k \<noteq> []" for k
    by (simp add: keyed_bytes_def upto.simps)
  then have 6: "\<forall>secret data. Hmac_sha256 reference_platform secret data \<noteq> []"
    by (simp add: reference_platform_def reference_hmac_def)
  show ?thesis unfolding lossless_codecs_def using 1 2 3 4 5 6 by blast
qed

section \<open>The claims at concrete links\<close>



lemma reschedule_payload_expiry:
  "Date_parse reference_platform (expiresAt (reschedule_payload meetingType)) = Some 1738368000000"
  by (simp add: reschedule_payload_def) code_simp

text \<open>
  The round trip for the reschedule link of the example, verified on 1 January 2025, a
  month before it expires.
\<close>

theorem sign_verify_roundtrip_witness:
  "lossless_codecs reference_platform
   \<and> Date_parse reference_platform (expiresAt (reschedule_payload ''intro-30''))
       = Some 1738368000000
   \<and> (1735720800000 :: int) < 1738368000000
   \<and> signLinkPayload reference_platform (Some ''test-signing-secret'')
        (reschedule_payload ''intro-30'') = Inr (signed (reschedule_payload ''intro-30''))
   \<and> verifySignedLink reference_platform (Some ''test-signing-secret'') 1735720800000
        (signed (reschedule_payload ''intro-30'')) = Inr (Some (reschedule_payload ''intro-30''))"
proof -
  let ?p = "reschedule_payload ''intro-30''"
  have s: "''test-signing-secret'' \<noteq> []" by simp
  have f: "action ?p \<noteq> []" "meetingTypeId ?p \<noteq> []" "eventId ?p \<noteq> []" "guestEmail ?p \<noteq> []"
    by (simp_all add: reschedule_payload_def)
  have lt: "(1735720800000 :: int) < 1738368000000" by simp
  from sign_verify_roundtrip[OF reference_platform_lossless s f reschedule_payload_expiry lt]
  obtain tok where t:
    "signLinkPayload reference_platform (Some ''test-signing-secret'') ?p = Inr tok"
    "verifySignedLink reference_platform (Some ''test-signing-secret'') 1735720800000 tok
       = Inr (Some ?p)"
    by blast
  have "tok = signed ?p" using t(1) by (simp add: signed_def)
  then show ?thesis
    using t reference_platform_lossless reschedule_payload_expiry by simp
qed

text \<open>The same link one millisecond after it has expired.\<close>

theorem expired_link_decodes_but_does_not_verify_witness:
  "lossless_codecs reference_platform
   \<and> Date_parse reference_platform (expiresAt (reschedule_payload ''intro-30''))
       = Some 1738368000000
   \<and> (1738368000000 :: int) < 1738368000001
   \<and> decodeSignedLinkPayload reference_platform (signed (reschedule_payload ''intro-30''))
       = Some (reschedule_payload ''intro-30'')
   \<and> verifySignedLink reference_platform (Some ''test-signing-secret'') 1738368000001
        (signed (reschedule_payload ''intro-30'')) = Inr None"
proof -
  let ?p = "reschedule_payload ''intro-30''"
  have s: "''test-signing-secret'' \<noteq> []" by simp
  have lt: "(1738368000000 :: int) < 1738368000001" by simp
  from expired_link_decodes_but_does_not_verify[OF reference_platform_lossless s
         reschedule_payload_expiry lt]
  obtain tok where t:
    "signLinkPayload reference_platform (Some ''test-signing-secret'') ?p = Inr tok"
    "decodeSignedLinkPayload reference_platform tok = Some ?p"
    "verifySignedLink reference_platform (Some ''test-signing-secret'') 1738368000001 tok
       = Inr None"
    by blast
  have "tok = signed ?p" using t(1) by (simp add: signed_def)
  then show ?thesis
    using t reference_platform_lossless reschedule_payload_expiry by simp
qed

text \<open>
  C7. \<open>createManagementLinks\<close> at a failing input: the clock ticks from
  1735720800000 to 1735720800001 between the first and the second
  \<open>generateSignedLink\<close> call. The cancel link then expires one millisecond before the
  reschedule and manage links.
\<close>

theorem createManagementLinks_expiries_differ:
  "map_sum id (link_expiresAt \<circ> cancel)
     (createManagementLinks reference_platform (Some ''test-signing-secret'')
        1735720800000 1735720800001 1735720800001 booking_fields DEFAULT_MANAGEMENT_LINK_TTL_MS)
     = Inr ''2025-01-08T08:40:00.000Z''
   \<and> map_sum id (link_expiresAt \<circ> reschedule)
     (createManagementLinks reference_platform (Some ''test-signing-secret'')
        1735720800000 1735720800001 1735720800001 booking_fields DEFAULT_MANAGEMENT_LINK_TTL_MS)
     = Inr ''2025-01-08T08:40:00.001Z''
   \<and> map_sum id (link_expiresAt \<circ> manage)
     (createManagementLinks reference_platform (Some ''test-signing-secret'')
        1735720800000 1735720800001 1735720800001 booking_fields DEFAULT_MANAGEMENT_LINK_TTL_MS)
     = Inr ''2025-01-08T08:40:00.001Z''"
proof -
  obtain links where l:
    "createManagementLinks reference_platform (Some ''test-signing-secret'')
        1735720800000 1735720800001 1735720800001 booking_fields DEFAULT_MANAGEMENT_LINK_TTL_MS
      = Inr links"
    using createManagementLinks_returns[of "''test-signing-secret''"] by fastforce
  have a: "Date_toISOString reference_platform (1735720800000 + DEFAULT_MANAGEMENT_LINK_TTL_MS)
             = ''2025-01-08T08:40:00.000Z''"
    by code_simp
  have b: "Date_toISOString reference_platform (1735720800001 + DEFAULT_MANAGEMENT_LINK_TTL_MS)
             = ''2025-01-08T08:40:00.001Z''"
    by code_simp
  show ?thesis
    using createManagementLinks_expiresAt[OF l] by (simp add: l a b)
qed




end
